theory Spec2Isabelle
  imports Main "HOL-Library.AList" "HOL-Library.Multiset"
begin

section \<open>Coverage data delivered by the LCOV parser\<close>

text \<open>
  A parsed report is a list of sections, one per source file.  Every section carries
  three groups (lines, branches, functions), each with the two summary counters and
  the ordered detail entries.  The detail entries share the fields \<open>line\<close> and
  \<open>hit\<close>; a branch entry adds its identifier \<open>branch\<close>, a function entry its
  \<open>name\<close>; what else the parser records for an entry is not read by the source and
  is left out.  The numbers that the parser delivers are integers.  The summary
  counter that the source calls \<open>hit\<close> is the field \<open>hit_count\<close> here, since the
  detail entries already own the field name \<open>hit\<close>.
\<close>

record line_detail =
  line :: int
  hit :: int

record branch_detail = line_detail +
  branch :: string

record function_detail = line_detail +
  name :: string

record 'd group_summary =
  instrumented :: int
  hit_count :: int
  details :: "'d list"

record section_summary =
  path :: string
  lines :: "line_detail group_summary"
  branches :: "branch_detail group_summary"
  "functions" :: "function_detail group_summary"

section \<open>Values of the host interface\<close>

text \<open>
  Everything that can make a call of the extension fail is a value of \<open>error\<close>:
  the host's constructors refuse a negative position (\<open>IllegalArgument\<close>) and a
  coverage count whose covered part exceeds its total or whose total is negative
  (\<open>InvalidCount\<close>); reading the property of an undefined value, writing a property
  of a primitive value or calling something that is no function is a \<open>TypeError\<close>;
  the asynchronous collaborators (file read, parser, demangler load) reject with a
  reason.
\<close>

datatype error =
    IllegalArgument
  | InvalidCount
  | TypeError
  | ReadRejected string
  | ParseRejected string
  | LoadRejected string

datatype position = Position int int

definition new_Position :: "int \<Rightarrow> int \<Rightarrow> error + position" where
  "new_Position l c = (if l < 0 \<or> c < 0 then Inl IllegalArgument else Inr (Position l c))"

text \<open>
  The only arithmetic of the source is the addition of a hit count to the counter
  of a branch record.  The numbers of the source are binary floating-point numbers
  with 53 significant bits, and a sum is the exact sum rounded to the nearest such
  number, to the one with the even significand in case of a tie, and to infinity
  from \<open>2^1024\<close> on.  Up to \<open>2^53\<close> in magnitude every integer is such a number
  and the sum is exact.
\<close>

datatype number = Finite int | PosInfinity | NegInfinity

function bit_length :: "int \<Rightarrow> nat" where
  "bit_length x = (if x \<le> 0 then 0 else Suc (bit_length (x div 2)))"
  by pat_completeness auto
termination
  by (relation "measure nat") auto

declare bit_length.simps [simp del]

definition round_number :: "int \<Rightarrow> number" where
  "round_number x =
     (if \<bar>x\<bar> \<le> 9007199254740992 then Finite x
      else
        (let q = 2 ^ (bit_length \<bar>x\<bar> - 53);
             lo = \<bar>x\<bar> div q;
             r = \<bar>x\<bar> mod q;
             m = (if q < 2 * r \<or> (2 * r = q \<and> odd lo) then lo + 1 else lo) * q
         in if 2 ^ 1024 \<le> m then (if 0 < x then PosInfinity else NegInfinity)
            else Finite (sgn x * m)))"

definition plus_number :: "number \<Rightarrow> int \<Rightarrow> number" where
  "plus_number a h =
     (case a of
        Finite x \<Rightarrow> round_number (x + h)
      | PosInfinity \<Rightarrow> PosInfinity
      | NegInfinity \<Rightarrow> NegInfinity)"

datatype branch_coverage =
  BranchCoverage (executed: number) (location: position) (label: string)

datatype file_coverage_detail =
    StatementCoverage int position "branch_coverage list"
  | DeclarationCoverage string int position

section \<open>Branch groups\<close>

text \<open>
  The per-line bucket of the source is a plain object used as a dictionary from
  branch identifier to branch record.  Its own properties are kept here in creation
  order.  A plain object also answers for the member names it inherits from the
  object prototype: reading such a key yields the inherited member, a function or,
  for \<open>__proto__\<close>, the object prototype itself, and none of them is null or
  undefined.  The standard members are listed in \<open>inherited_keys\<close>.

  The source writes to what it reads.  A write to an inherited function changes
  nothing that the source reads again.  A write through \<open>__proto__\<close> gives the
  object prototype a member \<open>executed\<close>, a number that is not a number; from then
  on, in this call and in every later one, every bucket inherits that member under
  the key \<open>executed\<close>.  Whether the object prototype carries this member is the
  flag \<open>polluted\<close> that the loop takes and returns.
\<close>

type_synonym branch_record = "(string \<times> branch_coverage) list"

definition inherited_keys :: "string list" where
  "inherited_keys =
     [''constructor'', ''__defineGetter__'', ''__defineSetter__'', ''hasOwnProperty'',
      ''__lookupGetter__'', ''__lookupSetter__'', ''isPrototypeOf'',
      ''propertyIsEnumerable'', ''toString'', ''valueOf'', ''__proto__'',
      ''toLocaleString'']"

datatype property = Undefined | Own branch_coverage | Member | Primitive

definition get_property :: "bool \<Rightarrow> branch_record \<Rightarrow> string \<Rightarrow> property" where
  "get_property polluted r k =
     (case map_of r k of
        Some c \<Rightarrow> Own c
      | None \<Rightarrow>
          if k \<in> set inherited_keys then Member
          else if polluted \<and> k = ''executed'' then Primitive
          else Undefined)"

text \<open>
  \<^verbatim>\<open>branches[branch.branch] ??= new vscode.BranchCoverage(0, new vscode.Position(branch.line - 1, 0), branch.branch)\<close>:
  the right-hand side is evaluated, and the property created, only when the key
  reads as undefined.
\<close>

definition ensure_branch :: "bool \<Rightarrow> int \<Rightarrow> string \<Rightarrow> branch_record \<Rightarrow> error + branch_record" where
  "ensure_branch polluted l k r =
     (case get_property polluted r k of
        Undefined \<Rightarrow>
          (case new_Position (l - 1) 0 of
             Inl e \<Rightarrow> Inl e
           | Inr p \<Rightarrow> Inr (r @ [(k, BranchCoverage (Finite 0) p k)]))
      | Own c \<Rightarrow> Inr r
      | Member \<Rightarrow> Inr r
      | Primitive \<Rightarrow> Inr r)"

text \<open>
  \<^verbatim>\<open>(branches[branch.branch].executed as number) += branch.hit\<close>: the counter of
  the bucket's own record grows by the hit count.  For an inherited member the write
  goes to that member and the bucket stays as it is; through \<open>__proto__\<close> it
  reaches the object prototype.  For the inherited number the write is a write to a
  member of a primitive value, which throws in the strict code of a module.
\<close>

definition add_executed ::
  "bool \<Rightarrow> string \<Rightarrow> int \<Rightarrow> branch_record \<Rightarrow> (error + branch_record) \<times> bool" where
  "add_executed polluted k h r =
     (case get_property polluted r k of
        Undefined \<Rightarrow> (Inl TypeError, polluted)
      | Own c \<Rightarrow>
          (Inr (AList.map_entry k
                  (\<lambda>c. BranchCoverage (plus_number (executed c) h) (location c) (label c)) r),
           polluted)
      | Member \<Rightarrow> (Inr r, polluted \<or> k = ''__proto__'')
      | Primitive \<Rightarrow> (Inl TypeError, polluted))"

type_synonym branches_by_line = "int \<Rightarrow> branch_record option"

definition merge_branch ::
  "branch_detail \<Rightarrow> bool \<Rightarrow> branches_by_line \<Rightarrow> (error + branches_by_line) \<times> bool" where
  "merge_branch b polluted branchesByLine =
     (let branches0 = (case branchesByLine (line b) of None \<Rightarrow> [] | Some r \<Rightarrow> r) in
      case ensure_branch polluted (line b) (branch b) branches0 of
        Inl e \<Rightarrow> (Inl e, polluted)
      | Inr branches1 \<Rightarrow>
          (case add_executed polluted (branch b) (hit b) branches1 of
             (Inl e, polluted1) \<Rightarrow> (Inl e, polluted1)
           | (Inr branches2, polluted1) \<Rightarrow>
               (Inr (branchesByLine(line b \<mapsto> branches2)), polluted1)))"

fun branches_loop ::
  "branch_detail list \<Rightarrow> bool \<Rightarrow> branches_by_line \<Rightarrow> (error + branches_by_line) \<times> bool" where
  "branches_loop [] polluted branchesByLine = (Inr branchesByLine, polluted)"
| "branches_loop (b # bs) polluted branchesByLine =
     (case merge_branch b polluted branchesByLine of
        (Inl e, polluted1) \<Rightarrow> (Inl e, polluted1)
      | (Inr m, polluted1) \<Rightarrow> branches_loop bs polluted1 m)"

text \<open>
  \<^verbatim>\<open>Object.values\<close> lists the own properties: first the keys that are array
  indices (canonical decimal numerals below \<open>2^32 - 1\<close>) in ascending numeric order,
  then all other keys in creation order.
\<close>

definition digit_value :: "char \<Rightarrow> int" where
  "digit_value c = of_char c - 48"

definition is_digit :: "char \<Rightarrow> bool" where
  "is_digit c = (48 \<le> (of_char c :: int) \<and> (of_char c :: int) \<le> 57)"

definition numeral_value :: "string \<Rightarrow> int" where
  "numeral_value s = foldl (\<lambda>n c. 10 * n + digit_value c) 0 s"

definition is_array_index :: "string \<Rightarrow> bool" where
  "is_array_index s =
     (s \<noteq> [] \<and> list_all is_digit s \<and> (s = ''0'' \<or> hd s \<noteq> CHR ''0'') \<and>
      numeral_value s < 4294967295)"

definition object_values :: "branch_record \<Rightarrow> branch_coverage list" where
  "object_values r =
     map snd
       (sort_key (\<lambda>p. numeral_value (fst p)) (filter (\<lambda>p. is_array_index (fst p)) r) @
        filter (\<lambda>p. \<not> is_array_index (fst p)) r)"

section \<open>The loop over the line details\<close>

fun lines_loop ::
  "line_detail list \<Rightarrow> branches_by_line \<Rightarrow> file_coverage_detail list \<Rightarrow>
   error + file_coverage_detail list" where
  "lines_loop [] branchesByLine ds = Inr ds"
| "lines_loop (l # ls) branchesByLine ds =
     (case new_Position (line l - 1) 0 of
        Inl e \<Rightarrow> Inl e
      | Inr p \<Rightarrow>
          lines_loop ls branchesByLine
            (ds @
             [StatementCoverage (hit l) p
                (object_values (case branchesByLine (line l) of None \<Rightarrow> [] | Some r \<Rightarrow> r))]))"

section \<open>The demangler cache\<close>

text \<open>
  The variable \<open>demangle\<close> of the coverage profile is undefined, a promise, or the
  loaded function.  Promises are named by the number of the \<^verbatim>\<open>loadDemangle\<close> call
  that returned them; \<open>loads\<close> counts these calls and \<open>demangled\<close> lists, in order,
  the names handed to the demangler.  The two counters are observations of the
  model, the source holds only the variable.  Beside the variable, one thing
  outlives a call: whether the object prototype carries the member \<open>executed\<close>
  (\<open>prototype_executed\<close>); it belongs to the host as a whole and is kept with the
  profile for the calls to pass it on.  The module that provides
  \<^verbatim>\<open>loadDemangle\<close> is a parameter: a function giving, for the \<open>k\<close>-th call, what the
  returned promise settles to, a rejection reason or the demangling function.
\<close>

type_synonym demangler = "string \<Rightarrow> string"

datatype demangle_cache = DUndefined | DPromise nat | DFunction demangler

record profile_state =
  demangle :: demangle_cache
  loads :: nat
  demangled :: "string list"
  prototype_executed :: bool

type_synonym loader = "nat \<Rightarrow> string + demangler"

text \<open>The test \<^verbatim>\<open>/^_{1,3}Z/\<close>: one, two or three underscores at the start, then \<open>Z\<close>.\<close>

definition is_mangled :: "string \<Rightarrow> bool" where
  "is_mangled n = (take 2 n = ''_Z'' \<or> take 3 n = ''__Z'' \<or> take 4 n = ''___Z'')"

text \<open>
  The guard in front of the demangler call, split at its \<^verbatim>\<open>await\<close>.  Entering it
  runs up to the suspension: an undefined variable starts the load and stores the
  promise, a stored promise is awaited, a stored function needs no waiting.
  Resuming runs after the awaited promise has settled: a rejection is thrown with
  the variable left as it is, a resolution stores the function.
\<close>

definition demangle_enter :: "profile_state \<Rightarrow> nat option \<times> profile_state" where
  "demangle_enter s =
     (case demangle s of
        DUndefined \<Rightarrow>
          (Some (loads s), s\<lparr>demangle := DPromise (loads s), loads := Suc (loads s)\<rparr>)
      | DPromise k \<Rightarrow> (Some k, s)
      | DFunction f \<Rightarrow> (None, s))"

definition demangle_resume ::
  "string + demangler \<Rightarrow> profile_state \<Rightarrow> error option \<times> profile_state" where
  "demangle_resume settled s =
     (case settled of
        Inl reason \<Rightarrow> (Some (LoadRejected reason), s)
      | Inr f \<Rightarrow> (None, s\<lparr>demangle := DFunction f\<rparr>))"

text \<open>\<^verbatim>\<open>name = demangle(name)\<close>: the call of whatever the variable holds.\<close>

definition call_demangle :: "string \<Rightarrow> profile_state \<Rightarrow> (error + string) \<times> profile_state" where
  "call_demangle n s =
     (case demangle s of
        DFunction f \<Rightarrow> (Inr (f n), s\<lparr>demangled := demangled s @ [n]\<rparr>)
      | DUndefined \<Rightarrow> (Inl TypeError, s)
      | DPromise k \<Rightarrow> (Inl TypeError, s))"

definition push_declaration ::
  "string \<Rightarrow> function_detail \<Rightarrow> file_coverage_detail list \<Rightarrow> error + file_coverage_detail list" where
  "push_declaration n fn ds =
     (case new_Position (line fn - 1) 0 of
        Inl e \<Rightarrow> Inl e
      | Inr p \<Rightarrow> Inr (ds @ [DeclarationCoverage n (hit fn) p]))"

section \<open>Detail expansion, one call at a time\<close>

text \<open>
  When no other call runs in between, an awaited promise settles to what the loader
  gives for it and the guard resumes at once.
\<close>

definition ensure_demangle :: "loader \<Rightarrow> profile_state \<Rightarrow> error option \<times> profile_state" where
  "ensure_demangle loadDemangle s =
     (case demangle_enter s of
        (None, s1) \<Rightarrow> (None, s1)
      | (Some k, s1) \<Rightarrow> demangle_resume (loadDemangle k) s1)"

definition display_name ::
  "loader \<Rightarrow> string \<Rightarrow> profile_state \<Rightarrow> (error + string) \<times> profile_state" where
  "display_name loadDemangle n s =
     (if is_mangled n then
        (case ensure_demangle loadDemangle s of
           (Some e, s1) \<Rightarrow> (Inl e, s1)
         | (None, s1) \<Rightarrow> call_demangle n s1)
      else (Inr n, s))"

fun functions_loop ::
  "loader \<Rightarrow> function_detail list \<Rightarrow> file_coverage_detail list \<Rightarrow> profile_state \<Rightarrow>
   (error + file_coverage_detail list) \<times> profile_state" where
  "functions_loop loadDemangle [] ds s = (Inr ds, s)"
| "functions_loop loadDemangle (fn # fns) ds s =
     (if length (name fn) = 0 then functions_loop loadDemangle fns ds s
      else
        (case display_name loadDemangle (name fn) s of
           (Inl e, s1) \<Rightarrow> (Inl e, s1)
         | (Inr n, s1) \<Rightarrow>
             (case push_declaration n fn ds of
                Inl e \<Rightarrow> (Inl e, s1)
              | Inr ds1 \<Rightarrow> functions_loop loadDemangle fns ds1 s1)))"

text \<open>
  \<^verbatim>\<open>loadDetailedCoverage\<close>.  Its argument \<open>found\<close> is what
  \<^verbatim>\<open>testRunData.get(fileCoverage)\<close> returns: the section stored for the coverage
  object, if any.
\<close>

definition loadDetailedCoverage ::
  "loader \<Rightarrow> section_summary option \<Rightarrow> profile_state \<Rightarrow>
   (error + file_coverage_detail list) \<times> profile_state" where
  "loadDetailedCoverage loadDemangle found s =
     (case found of
        None \<Rightarrow> (Inr [], s)
      | Some sec \<Rightarrow>
          (case branches_loop (details (branches sec)) (prototype_executed s) Map.empty of
             (Inl e, polluted) \<Rightarrow> (Inl e, s\<lparr>prototype_executed := polluted\<rparr>)
           | (Inr branchesByLine, polluted) \<Rightarrow>
               (case lines_loop (details (lines sec)) branchesByLine [] of
                  Inl e \<Rightarrow> (Inl e, s\<lparr>prototype_executed := polluted\<rparr>)
                | Inr ds \<Rightarrow>
                    functions_loop loadDemangle (details (functions sec)) ds
                      (s\<lparr>prototype_executed := polluted\<rparr>))))"

section \<open>Collecting the run data\<close>

text \<open>
  A file identity is either the raw path (\<^verbatim>\<open>Uri.file\<close>) or a workspace folder
  joined with a relative path (\<^verbatim>\<open>Uri.joinPath\<close>); a workspace folder is given by
  its file-system path.
\<close>

datatype uri = UriFile string | UriJoinPath string string

definition startsWith :: "string \<Rightarrow> string \<Rightarrow> bool" where
  "startsWith s w = (take (length w) s = w)"

definition substring :: "string \<Rightarrow> nat \<Rightarrow> string" where
  "substring s i = drop i s"

fun resolve_path :: "string list \<Rightarrow> string \<Rightarrow> uri option" where
  "resolve_path [] p = None"
| "resolve_path (workspacePath # ws) p =
     (if startsWith p workspacePath
      then Some (UriJoinPath workspacePath (substring p (length workspacePath + 1)))
      else resolve_path ws p)"

text \<open>
  A coverage count of the host, checked on construction: the covered part must not
  exceed the total and the total must not be negative.
\<close>

record test_coverage_count =
  covered :: int
  total :: int

definition new_TestCoverageCount :: "int \<Rightarrow> int \<Rightarrow> error + test_coverage_count" where
  "new_TestCoverageCount c t =
     (if c > t then Inl InvalidCount
      else if t < 0 then Inl InvalidCount
      else Inr \<lparr>covered = c, total = t\<rparr>)"

record file_coverage =
  uri :: uri
  statementCoverage :: test_coverage_count
  branchCoverage :: test_coverage_count
  declarationCoverage :: test_coverage_count

text \<open>
  The body of the loop over the sections of a report, up to the construction of
  the coverage object (lines 60 to 90): the identity of the section, then the
  three counts in the order statement, branch, declaration.
\<close>

definition new_FileCoverage :: "string list \<Rightarrow> section_summary \<Rightarrow> error + file_coverage" where
  "new_FileCoverage workspaceFolders sec =
     (let u = (case resolve_path workspaceFolders (path sec) of
                 Some joined \<Rightarrow> joined
               | None \<Rightarrow> UriFile (path sec)) in
      case new_TestCoverageCount (hit_count (lines sec)) (instrumented (lines sec)) of
        Inl e \<Rightarrow> Inl e
      | Inr st \<Rightarrow>
          (case new_TestCoverageCount (hit_count (branches sec)) (instrumented (branches sec)) of
             Inl e \<Rightarrow> Inl e
           | Inr br \<Rightarrow>
               (case new_TestCoverageCount (hit_count (functions sec)) (instrumented (functions sec)) of
                  Inl e \<Rightarrow> Inl e
                | Inr de \<Rightarrow>
                    Inr \<lparr>uri = u, statementCoverage = st, branchCoverage = br,
                         declarationCoverage = de\<rparr>)))"

text \<open>
  The state a run works on: the side table from coverage objects to their sections,
  the coverage objects added to the test run, and whether the run was ended.
\<close>

record test_run =
  testRunData :: "(file_coverage \<times> section_summary) list"
  coverage :: "file_coverage list"
  ended :: bool

fun sections_loop :: "string list \<Rightarrow> section_summary list \<Rightarrow> test_run \<Rightarrow> error option \<times> test_run" where
  "sections_loop workspaceFolders [] run = (None, run)"
| "sections_loop workspaceFolders (sec # secs) run =
     (case new_FileCoverage workspaceFolders sec of
        Inl e \<Rightarrow> (Some e, run)
      | Inr fileCoverage \<Rightarrow>
          sections_loop workspaceFolders secs
            (run\<lparr>testRunData := testRunData run @ [(fileCoverage, sec)],
                 coverage := coverage run @ [fileCoverage]\<rparr>))"

text \<open>
  What the surroundings answer to one run: the file system, the parser, the
  workspace folders, and what the cancellation token says to the task of a report
  file at its two checks.
\<close>

record host =
  readFile :: "string \<Rightarrow> error + string"
  parseLcov :: "string \<Rightarrow> error + section_summary list"
  workspaceFolders :: "string list"
  cancelled_after_read :: "string \<Rightarrow> bool"
  cancelled_after_parse :: "string \<Rightarrow> bool"

text \<open>
  The task of one report file.  After its last \<^verbatim>\<open>await\<close> it runs to its end
  without suspension, so all its effects on the run happen in one piece.
\<close>

definition item_task :: "host \<Rightarrow> string \<Rightarrow> test_run \<Rightarrow> error option \<times> test_run" where
  "item_task h item run =
     (case readFile h item of
        Inl e \<Rightarrow> (Some e, run)
      | Inr contents \<Rightarrow>
          if cancelled_after_read h item then (None, run)
          else
            (case parseLcov h contents of
               Inl e \<Rightarrow> (Some e, run)
             | Inr sections \<Rightarrow>
                 if cancelled_after_parse h item then (None, run)
                 else sections_loop (workspaceFolders h) sections run))"

text \<open>
  \<^verbatim>\<open>Promise.all\<close> over the tasks: every task runs to its end whatever the others
  do; the tasks are listed in the order in which they finish, and the rejections
  are collected in that order.
\<close>

fun all_tasks :: "host \<Rightarrow> string list \<Rightarrow> test_run \<Rightarrow> error list \<times> test_run" where
  "all_tasks h [] run = ([], run)"
| "all_tasks h (item # items) run =
     (case item_task h item run of
        (r, run1) \<Rightarrow>
          (case all_tasks h items run1 of
             (errs, run2) \<Rightarrow> ((case r of None \<Rightarrow> [] | Some e \<Rightarrow> [e]) @ errs, run2)))"

text \<open>
  \<^verbatim>\<open>collectRunData\<close> from line 45 on.  The items are the report files that
  the request selects, given in the order in which their tasks finish; the run is
  new and empty, the side table is the one left by earlier runs.  Awaiting the
  combined promise throws its first rejection, and then \<^verbatim>\<open>run.end()\<close> is not
  reached.  The result is the state once every task has finished.
\<close>

definition collectRunData ::
  "host \<Rightarrow> string list \<Rightarrow> (file_coverage \<times> section_summary) list \<Rightarrow> error option \<times> test_run" where
  "collectRunData h items table =
     (case all_tasks h items \<lparr>testRunData = table, coverage = [], ended = False\<rparr> of
        ([], run) \<Rightarrow> (None, run\<lparr>ended := True\<rparr>)
      | (e # errs, run) \<Rightarrow> (Some e, run))"

section \<open>Detail expansion under interleaving\<close>

text \<open>
  Several calls of \<^verbatim>\<open>loadDetailedCoverage\<close> may be in flight at once.  A call runs
  without interruption from one \<^verbatim>\<open>await\<close> to the next, and the only
  \<^verbatim>\<open>await\<close>s are those of the guard.  A call is therefore suspended at the guard
  (waiting for a promise, within the iteration for one function entry), or it has
  returned its details, or it has thrown.
\<close>

datatype task =
    Suspended nat function_detail "function_detail list" "file_coverage_detail list"
  | Returned "file_coverage_detail list"
  | Thrown error

text \<open>The rest of an iteration once the variable holds the function (lines 167 to 176).\<close>

definition emit_demangled ::
  "function_detail \<Rightarrow> file_coverage_detail list \<Rightarrow> profile_state \<Rightarrow>
   (error + file_coverage_detail list) \<times> profile_state" where
  "emit_demangled fn ds s =
     (case call_demangle (name fn) s of
        (Inl e, s1) \<Rightarrow> (Inl e, s1)
      | (Inr n, s1) \<Rightarrow>
          (case push_declaration n fn ds of
             Inl e \<Rightarrow> (Inl e, s1)
           | Inr ds1 \<Rightarrow> (Inr ds1, s1)))"

text \<open>The function loop from its head up to the next suspension.\<close>

fun run_functions ::
  "function_detail list \<Rightarrow> file_coverage_detail list \<Rightarrow> profile_state \<Rightarrow> task \<times> profile_state" where
  "run_functions [] ds s = (Returned ds, s)"
| "run_functions (fn # fns) ds s =
     (if length (name fn) = 0 then run_functions fns ds s
      else if is_mangled (name fn) then
        (case demangle_enter s of
           (Some k, s1) \<Rightarrow> (Suspended k fn fns ds, s1)
         | (None, s1) \<Rightarrow>
             (case emit_demangled fn ds s1 of
                (Inl e, s2) \<Rightarrow> (Thrown e, s2)
              | (Inr ds1, s2) \<Rightarrow> run_functions fns ds1 s2))
      else
        (case push_declaration (name fn) fn ds of
           Inl e \<Rightarrow> (Thrown e, s)
         | Inr ds1 \<Rightarrow> run_functions fns ds1 s))"

text \<open>A suspended call goes on when its promise has settled.\<close>

definition resume_call ::
  "string + demangler \<Rightarrow> function_detail \<Rightarrow> function_detail list \<Rightarrow>
   file_coverage_detail list \<Rightarrow> profile_state \<Rightarrow> task \<times> profile_state" where
  "resume_call settled fn fns ds s =
     (case demangle_resume settled s of
        (Some e, s1) \<Rightarrow> (Thrown e, s1)
      | (None, s1) \<Rightarrow>
          (case emit_demangled fn ds s1 of
             (Inl e, s2) \<Rightarrow> (Thrown e, s2)
           | (Inr ds1, s2) \<Rightarrow> run_functions fns ds1 s2))"

text \<open>A new call, from its start up to its first suspension.\<close>

definition start_call :: "section_summary option \<Rightarrow> profile_state \<Rightarrow> task \<times> profile_state" where
  "start_call found s =
     (case found of
        None \<Rightarrow> (Returned [], s)
      | Some sec \<Rightarrow>
          (case branches_loop (details (branches sec)) (prototype_executed s) Map.empty of
             (Inl e, polluted) \<Rightarrow> (Thrown e, s\<lparr>prototype_executed := polluted\<rparr>)
           | (Inr branchesByLine, polluted) \<Rightarrow>
               (case lines_loop (details (lines sec)) branchesByLine [] of
                  Inl e \<Rightarrow> (Thrown e, s\<lparr>prototype_executed := polluted\<rparr>)
                | Inr ds \<Rightarrow>
                    run_functions (details (functions sec)) ds
                      (s\<lparr>prototype_executed := polluted\<rparr>))))"

text \<open>
  A session is the life of one coverage profile: the profile's state, the promises
  that have settled so far, and the calls made so far.  It begins with the variable
  undefined and with the object prototype as earlier sessions have left it.  In one
  step a new call starts, a pending promise settles, or a suspended call whose
  promise has settled goes on.
\<close>

record session =
  profile :: profile_state
  settled :: "nat set"
  calls :: "task list"

definition initial_profile :: "bool \<Rightarrow> profile_state" where
  "initial_profile polluted =
     \<lparr>demangle = DUndefined, loads = 0, demangled = [], prototype_executed = polluted\<rparr>"

definition initial_session :: "bool \<Rightarrow> session" where
  "initial_session polluted =
     \<lparr>profile = initial_profile polluted, settled = {}, calls = []\<rparr>"

inductive session_step :: "loader \<Rightarrow> session \<Rightarrow> session \<Rightarrow> bool" for loadDemangle where
  call:
    "start_call found (profile x) = (t, s) \<Longrightarrow>
     session_step loadDemangle x (x\<lparr>profile := s, calls := calls x @ [t]\<rparr>)"
| settle:
    "k < loads (profile x) \<Longrightarrow> k \<notin> settled x \<Longrightarrow>
     session_step loadDemangle x (x\<lparr>settled := insert k (settled x)\<rparr>)"
| resume:
    "i < length (calls x) \<Longrightarrow> calls x ! i = Suspended k fn fns ds \<Longrightarrow> k \<in> settled x \<Longrightarrow>
     resume_call (loadDemangle k) fn fns ds (profile x) = (t, s) \<Longrightarrow>
     session_step loadDemangle x (x\<lparr>profile := s, calls := (calls x)[i := t]\<rparr>)"

inductive reachable :: "loader \<Rightarrow> session \<Rightarrow> bool" for loadDemangle where
  initial: "reachable loadDemangle (initial_session polluted)"
| step: "reachable loadDemangle x \<Longrightarrow> session_step loadDemangle x y \<Longrightarrow> reachable loadDemangle y"

text \<open>
  A call that runs alone: whenever it is suspended, its promise settles and it
  goes on, until it returns or throws.
\<close>

function run_alone ::
  "loader \<Rightarrow> task \<times> profile_state \<Rightarrow> (error + file_coverage_detail list) \<times> profile_state" where
  "run_alone loadDemangle (Returned ds, s) = (Inr ds, s)"
| "run_alone loadDemangle (Thrown e, s) = (Inl e, s)"
| "run_alone loadDemangle (Suspended k fn fns ds, s) =
     run_alone loadDemangle (resume_call (loadDemangle k) fn fns ds s)"
  by pat_completeness auto
termination
proof (relation "measure (\<lambda>(loadDemangle, t, s).
    case t of Suspended k fn fns ds \<Rightarrow> Suc (length fns) | Returned ds \<Rightarrow> 0 | Thrown e \<Rightarrow> 0)")
  show "wf (measure (\<lambda>(loadDemangle, t, s).
    case t of Suspended k fn fns ds \<Rightarrow> Suc (length fns) | Returned ds \<Rightarrow> 0 | Thrown e \<Rightarrow> 0))"
    by simp
next
  fix loadDemangle :: loader and k fn fns ds s
  have shorter: "\<And>ds s t s'. run_functions fns ds s = (t, s') \<Longrightarrow>
      (case t of Suspended k fn fns' ds \<Rightarrow> Suc (length fns') | Returned ds \<Rightarrow> 0 | Thrown e \<Rightarrow> 0)
        \<le> length fns"
  proof (induction fns)
    case Nil
    then show ?case by auto
  next
    case (Cons a fns)
    show ?case
      using Cons.prems Cons.IH
      by (fastforce split: if_splits prod.splits option.splits sum.splits)
  qed
  obtain t s' where r: "resume_call (loadDemangle k) fn fns ds s = (t, s')"
    by (cases "resume_call (loadDemangle k) fn fns ds s")
  have "(case t of Suspended k fn fns' ds \<Rightarrow> Suc (length fns') | Returned ds \<Rightarrow> 0 | Thrown e \<Rightarrow> 0)
          \<le> length fns"
    using r shorter
    by (auto simp: resume_call_def split: prod.splits option.splits sum.splits)
  then show "((loadDemangle, resume_call (loadDemangle k) fn fns ds s),
              (loadDemangle, Suspended k fn fns ds, s))
        \<in> measure (\<lambda>(loadDemangle, t, s).
            case t of Suspended k fn fns ds \<Rightarrow> Suc (length fns) | Returned ds \<Rightarrow> 0 | Thrown e \<Rightarrow> 0)"
    using r by simp
qed

text \<open>
  The relation between the variable and the number of loads: undefined before the
  first load, the promise of the first load after it, and later the function that
  this promise resolved to.  A suspended call waits for a promise that exists.
\<close>

definition guarded :: "loader \<Rightarrow> profile_state \<Rightarrow> bool" where
  "guarded loadDemangle s =
     (case demangle s of
        DUndefined \<Rightarrow> loads s = 0
      | DPromise k \<Rightarrow> k = 0 \<and> loads s = 1
      | DFunction f \<Rightarrow> loads s = 1 \<and> loadDemangle 0 = Inr f)"

definition waits_below :: "nat \<Rightarrow> task \<Rightarrow> bool" where
  "waits_below n t = (case t of Suspended k fn fns ds \<Rightarrow> k < n | Returned ds \<Rightarrow> True | Thrown e \<Rightarrow> True)"

section \<open>What the claims speak about\<close>

text \<open>
  The bucket that the branch loop of the source builds for a line, described from
  the raw details: its keys are the identifiers seen on the line that are not
  inherited member names, each once, in the order of their first appearance; the
  counter of a key is what the additions of the source, starting from 0, make of
  the hit counts of its raw records.  The object prototype carries the member
  \<open>executed\<close> after the loop if it did before or if some identifier is
  \<open>__proto__\<close>.
\<close>

definition own_identifiers :: "int \<Rightarrow> branch_detail list \<Rightarrow> string list" where
  "own_identifiers l bs =
     rev (remdups (rev (filter (\<lambda>k. k \<notin> set inherited_keys)
       (map branch (filter (\<lambda>b. line b = l) bs)))))"

definition accumulated :: "int \<Rightarrow> string \<Rightarrow> branch_detail list \<Rightarrow> number" where
  "accumulated l k bs =
     foldl plus_number (Finite 0) (map hit (filter (\<lambda>b. line b = l \<and> branch b = k) bs))"

definition merged_bucket :: "int \<Rightarrow> branch_detail list \<Rightarrow> branch_record" where
  "merged_bucket l bs =
     map (\<lambda>k. (k, BranchCoverage (accumulated l k bs) (Position (l - 1) 0) k))
       (own_identifiers l bs)"

definition merged_buckets :: "branch_detail list \<Rightarrow> branches_by_line" where
  "merged_buckets bs l = (if l \<in> line ` set bs then Some (merged_bucket l bs) else None)"

definition polluted_after :: "bool \<Rightarrow> branch_detail list \<Rightarrow> bool" where
  "polluted_after polluted bs = (polluted \<or> ''__proto__'' \<in> branch ` set bs)"

text \<open>
  The branch loop throws no type error when no identifier is \<open>executed\<close>, or when
  the object prototype is clean at the start and no identifier is \<open>__proto__\<close>.
\<close>

definition identifiers_clean :: "bool \<Rightarrow> branch_detail list \<Rightarrow> bool" where
  "identifiers_clean polluted bs =
     (''executed'' \<notin> branch ` set bs \<or>
      (\<not> polluted \<and> ''__proto__'' \<notin> branch ` set bs))"

definition branches_done :: "section_summary \<Rightarrow> profile_state \<Rightarrow> profile_state" where
  "branches_done sec s =
     s\<lparr>prototype_executed := polluted_after (prototype_executed s) (details (branches sec))\<rparr>"

text \<open>
  The branch group of a line in the words of the specification: one record for
  every distinct identifier seen on the line, with the sum of the hit counts of all
  raw records of that line and identifier.  The hit counts are safe when all their
  magnitudes together stay within the range in which the additions of the source
  are exact.
\<close>

definition identifiers :: "int \<Rightarrow> branch_detail list \<Rightarrow> string list" where
  "identifiers l bs = rev (remdups (rev (map branch (filter (\<lambda>b. line b = l) bs))))"

definition summed_hits :: "int \<Rightarrow> string \<Rightarrow> branch_detail list \<Rightarrow> int" where
  "summed_hits l k bs = sum_list (map hit (filter (\<lambda>b. line b = l \<and> branch b = k) bs))"

definition branch_group :: "int \<Rightarrow> branch_detail list \<Rightarrow> branch_coverage list" where
  "branch_group l bs =
     map (\<lambda>k. BranchCoverage (Finite (summed_hits l k bs)) (Position (l - 1) 0) k)
       (identifiers l bs)"

definition safe_hits :: "branch_detail list \<Rightarrow> bool" where
  "safe_hits bs = (sum_list (map (\<lambda>b. \<bar>hit b\<bar>) bs) \<le> 9007199254740992)"

text \<open>The records a successful expansion holds.\<close>

definition line_records :: "line_detail list \<Rightarrow> branch_detail list \<Rightarrow> file_coverage_detail list" where
  "line_records ls bs =
     map (\<lambda>l. StatementCoverage (hit l) (Position (line l - 1) 0)
                 (object_values (merged_bucket (line l) bs)))
       ls"

definition shown_name :: "demangler \<Rightarrow> string \<Rightarrow> string" where
  "shown_name f n = (if is_mangled n then f n else n)"

definition declaration_records :: "demangler \<Rightarrow> function_detail list \<Rightarrow> file_coverage_detail list" where
  "declaration_records f fns =
     map (\<lambda>fn. DeclarationCoverage (shown_name f (name fn)) (hit fn) (Position (line fn - 1) 0))
       (filter (\<lambda>fn. name fn \<noteq> []) fns)"

definition mangled_names :: "function_detail list \<Rightarrow> string list" where
  "mangled_names fns = filter is_mangled (map name fns)"

text \<open>The line numbers of a section are positive, as the parser records them.\<close>

definition positive_lines :: "section_summary \<Rightarrow> bool" where
  "positive_lines sec =
     (list_all (\<lambda>l. 1 \<le> line l) (details (lines sec)) \<and>
      list_all (\<lambda>b. 1 \<le> line b) (details (branches sec)) \<and>
      list_all (\<lambda>fn. 1 \<le> line fn) (details (functions sec)))"

text \<open>
  What the guard obtains in a call that runs alone: the stored function, or what
  the stored or the next promise settles to.
\<close>

definition awaited :: "loader \<Rightarrow> profile_state \<Rightarrow> string + demangler" where
  "awaited loadDemangle s =
     (case demangle s of
        DUndefined \<Rightarrow> loadDemangle (loads s)
      | DPromise k \<Rightarrow> loadDemangle k
      | DFunction f \<Rightarrow> Inr f)"

text \<open>The profile after a call in which the guard was passed, and after one in which it threw.\<close>

definition entered :: "profile_state \<Rightarrow> profile_state" where
  "entered s = snd (demangle_enter s)"

definition loaded :: "demangler \<Rightarrow> string list \<Rightarrow> profile_state \<Rightarrow> profile_state" where
  "loaded f ns s = (entered s)\<lparr>demangle := DFunction f, demangled := demangled s @ ns\<rparr>"

text \<open>The two kinds of records in a result, each in the order of the result.\<close>

fun statements :: "file_coverage_detail list \<Rightarrow> (int \<times> position \<times> branch_coverage list) list" where
  "statements [] = []"
| "statements (StatementCoverage h p bs # ds) = (h, p, bs) # statements ds"
| "statements (DeclarationCoverage n h p # ds) = statements ds"


text \<open>The summary of a section, and the sections a report file parses to.\<close>

definition counts_valid :: "section_summary \<Rightarrow> bool" where
  "counts_valid sec =
     (hit_count (lines sec) \<le> instrumented (lines sec) \<and> 0 \<le> instrumented (lines sec) \<and>
      hit_count (branches sec) \<le> instrumented (branches sec) \<and> 0 \<le> instrumented (branches sec) \<and>
      hit_count (functions sec) \<le> instrumented (functions sec) \<and> 0 \<le> instrumented (functions sec))"

definition summary_of :: "string list \<Rightarrow> section_summary \<Rightarrow> file_coverage" where
  "summary_of roots sec =
     \<lparr>uri = (case resolve_path roots (path sec) of Some joined \<Rightarrow> joined | None \<Rightarrow> UriFile (path sec)),
      statementCoverage = \<lparr>covered = hit_count (lines sec), total = instrumented (lines sec)\<rparr>,
      branchCoverage = \<lparr>covered = hit_count (branches sec), total = instrumented (branches sec)\<rparr>,
      declarationCoverage = \<lparr>covered = hit_count (functions sec), total = instrumented (functions sec)\<rparr>\<rparr>"

definition parsed :: "host \<Rightarrow> string \<Rightarrow> section_summary list option" where
  "parsed h item =
     (case readFile h item of
        Inl e \<Rightarrow> None
      | Inr contents \<Rightarrow> (case parseLcov h contents of Inl e \<Rightarrow> None | Inr secs \<Rightarrow> Some secs))"

section \<open>The loops in closed form\<close>

lemma branches_loop_append:
  "branches_loop (ps @ qs) p m =
     (case branches_loop ps p m of
        (Inl e, p1) \<Rightarrow> (Inl e, p1)
      | (Inr m1, p1) \<Rightarrow> branches_loop qs p1 m1)"
  by (induction ps arbitrary: p m) (auto split: sum.splits prod.splits)

lemma own_identifiers_snoc:
  "own_identifiers l (ps @ [b]) =
     (if line b = l \<and> branch b \<notin> set inherited_keys \<and> branch b \<notin> set (own_identifiers l ps)
      then own_identifiers l ps @ [branch b] else own_identifiers l ps)"
  by (auto simp: own_identifiers_def)

lemma distinct_own_identifiers: "distinct (own_identifiers l bs)"
  by (simp add: own_identifiers_def)

lemma set_own_identifiers:
  "set (own_identifiers l bs) = {k. k \<notin> set inherited_keys \<and> (\<exists>b\<in>set bs. line b = l \<and> branch b = k)}"
  by (auto simp: own_identifiers_def)

lemma accumulated_snoc:
  "accumulated l k (ps @ [b]) =
     (if line b = l \<and> branch b = k then plus_number (accumulated l k ps) (hit b)
      else accumulated l k ps)"
  by (simp add: accumulated_def)

lemma accumulated_absent:
  "\<not> (\<exists>b\<in>set bs. line b = l \<and> branch b = k) \<Longrightarrow> accumulated l k bs = Finite 0"
proof -
  assume "\<not> (\<exists>b\<in>set bs. line b = l \<and> branch b = k)"
  then have "filter (\<lambda>b. line b = l \<and> branch b = k) bs = []"
    by (auto simp: filter_empty_conv)
  then show ?thesis by (simp add: accumulated_def)
qed

lemma merged_bucket_no_detail: "l \<notin> line ` set bs \<Longrightarrow> merged_bucket l bs = []"
  by (auto simp: merged_bucket_def own_identifiers_def filter_empty_conv)

lemma bucket_of_buckets:
  "(case merged_buckets bs l of None \<Rightarrow> [] | Some r \<Rightarrow> r) = merged_bucket l bs"
  by (simp add: merged_buckets_def merged_bucket_no_detail)

lemma map_of_merged_bucket:
  "map_of (merged_bucket l bs) k =
     (if k \<in> set (own_identifiers l bs)
      then Some (BranchCoverage (accumulated l k bs) (Position (l - 1) 0) k) else None)"
  by (simp add: merged_bucket_def map_of_map_restrict restrict_map_def)

lemma map_entry_keyed:
  "distinct ks \<Longrightarrow>
   AList.map_entry k f (map (\<lambda>k'. (k', g k')) ks) =
   map (\<lambda>k'. (k', if k' = k then f (g k') else g k')) ks"
  by (induction ks) auto

lemma map_entry_last:
  "k \<notin> fst ` set r \<Longrightarrow> AList.map_entry k f (r @ [(k, v)]) = r @ [(k, f v)]"
  by (induction r) auto

lemma merged_bucket_other_line:
  "line b \<noteq> l \<Longrightarrow> merged_bucket l (ps @ [b]) = merged_bucket l ps"
  by (simp add: merged_bucket_def own_identifiers_snoc accumulated_snoc)

lemma merged_buckets_snoc:
  "merged_buckets (ps @ [b]) = (merged_buckets ps)(line b \<mapsto> merged_bucket (line b) (ps @ [b]))"
  by (auto simp: fun_eq_iff merged_buckets_def merged_bucket_other_line)

lemma proto_inherited: "''__proto__'' \<in> set inherited_keys"
  by (simp add: inherited_keys_def)

lemma executed_not_inherited: "''executed'' \<notin> set inherited_keys"
  by (simp add: inherited_keys_def)

lemma bucket_inherited:
  assumes "branch b \<in> set inherited_keys"
  shows "get_property q (merged_bucket (line b) ps) (branch b) = Member"
    and "merged_bucket (line b) (ps @ [b]) = merged_bucket (line b) ps"
proof -
  have notin: "branch b \<notin> set (own_identifiers (line b) ps)"
    using assms by (simp add: set_own_identifiers)
  then show "get_property q (merged_bucket (line b) ps) (branch b) = Member"
    using assms by (simp add: get_property_def map_of_merged_bucket)
  have "\<forall>k\<in>set (own_identifiers (line b) ps). k \<noteq> branch b"
    using notin by auto
  then show "merged_bucket (line b) (ps @ [b]) = merged_bucket (line b) ps"
    using assms notin by (simp add: merged_bucket_def own_identifiers_snoc accumulated_snoc)
qed

lemma bucket_known:
  assumes "branch b \<in> set (own_identifiers (line b) ps)"
  shows "get_property q (merged_bucket (line b) ps) (branch b) =
           Own (BranchCoverage (accumulated (line b) (branch b) ps) (Position (line b - 1) 0) (branch b))"
    and "AList.map_entry (branch b)
           (\<lambda>c. BranchCoverage (plus_number (executed c) (hit b)) (location c) (label c))
           (merged_bucket (line b) ps) = merged_bucket (line b) (ps @ [b])"
proof -
  show "get_property q (merged_bucket (line b) ps) (branch b) =
           Own (BranchCoverage (accumulated (line b) (branch b) ps) (Position (line b - 1) 0) (branch b))"
    using assms by (simp add: get_property_def map_of_merged_bucket)
  show "AList.map_entry (branch b)
           (\<lambda>c. BranchCoverage (plus_number (executed c) (hit b)) (location c) (label c))
           (merged_bucket (line b) ps) = merged_bucket (line b) (ps @ [b])"
    using assms
    by (simp add: merged_bucket_def map_entry_keyed distinct_own_identifiers
        own_identifiers_snoc accumulated_snoc)
qed

lemma bucket_fresh:
  assumes "branch b \<notin> set inherited_keys" "branch b \<notin> set (own_identifiers (line b) ps)"
      and "q \<longrightarrow> branch b \<noteq> ''executed''"
  shows "get_property q (merged_bucket (line b) ps) (branch b) = Undefined"
    and "merged_bucket (line b) ps @
           [(branch b, BranchCoverage (plus_number (Finite 0) (hit b)) (Position (line b - 1) 0)
                         (branch b))] =
         merged_bucket (line b) (ps @ [b])"
proof -
  show "get_property q (merged_bucket (line b) ps) (branch b) = Undefined"
    using assms by (auto simp: get_property_def map_of_merged_bucket)
  have "\<not> (\<exists>b'\<in>set ps. line b' = line b \<and> branch b' = branch b)"
    using assms by (auto simp: set_own_identifiers)
  then have zero: "accumulated (line b) (branch b) ps = Finite 0"
    by (rule accumulated_absent)
  have "\<forall>k\<in>set (own_identifiers (line b) ps). k \<noteq> branch b"
    using assms(2) by auto
  then show "merged_bucket (line b) ps @
           [(branch b, BranchCoverage (plus_number (Finite 0) (hit b)) (Position (line b - 1) 0)
                         (branch b))] =
         merged_bucket (line b) (ps @ [b])"
    using assms zero by (simp add: merged_bucket_def own_identifiers_snoc accumulated_snoc)
qed

lemma keys_merged_bucket: "fst ` set (merged_bucket l bs) = set (own_identifiers l bs)"
  by (force simp: merged_bucket_def)

lemma merge_branch_bucket:
  assumes "1 \<le> line b" and "q \<longrightarrow> branch b \<noteq> ''executed''"
  shows "merge_branch b q (merged_buckets ps) =
           (Inr (merged_buckets (ps @ [b])), q \<or> branch b = ''__proto__'')"
proof -
  let ?r = "merged_bucket (line b) ps"
  have step: "(case ensure_branch q (line b) (branch b) ?r of
                 Inl e \<Rightarrow> (Inl e, q)
               | Inr r1 \<Rightarrow> add_executed q (branch b) (hit b) r1) =
              (Inr (merged_bucket (line b) (ps @ [b])), q \<or> branch b = ''__proto__'')"
  proof (cases "branch b \<in> set inherited_keys")
    case True
    then show ?thesis
      by (simp add: ensure_branch_def add_executed_def bucket_inherited)
  next
    case False
    then have np: "branch b \<noteq> ''__proto__''"
      using proto_inherited by auto
    show ?thesis
    proof (cases "branch b \<in> set (own_identifiers (line b) ps)")
      case True
      then show ?thesis
        using np by (simp add: ensure_branch_def add_executed_def bucket_known)
    next
      case fresh: False
      have pos: "new_Position (line b - 1) 0 = Inr (Position (line b - 1) 0)"
        using assms(1) by (simp add: new_Position_def)
      have own: "get_property q
                   (?r @ [(branch b, BranchCoverage (Finite 0) (Position (line b - 1) 0) (branch b))])
                   (branch b) =
                 Own (BranchCoverage (Finite 0) (Position (line b - 1) 0) (branch b))"
        using fresh by (simp add: get_property_def map_add_def map_of_merged_bucket)
      have "branch b \<notin> fst ` set ?r"
        using fresh by (simp add: keys_merged_bucket)
      then have upd: "AList.map_entry (branch b)
                   (\<lambda>c. BranchCoverage (plus_number (executed c) (hit b)) (location c) (label c))
                   (?r @ [(branch b, BranchCoverage (Finite 0) (Position (line b - 1) 0) (branch b))]) =
                 ?r @ [(branch b, BranchCoverage (plus_number (Finite 0) (hit b))
                                    (Position (line b - 1) 0) (branch b))]"
        by (simp add: map_entry_last)
      show ?thesis
        using bucket_fresh [OF False fresh assms(2)] pos own upd np
        by (simp add: ensure_branch_def add_executed_def)
    qed
  qed
  show ?thesis
    using step
    by (auto simp: merge_branch_def bucket_of_buckets merged_buckets_snoc split: sum.splits prod.splits)
qed

lemma polluted_after_snoc:
  "polluted_after p (ps @ [b]) = (polluted_after p ps \<or> branch b = ''__proto__'')"
  by (auto simp: polluted_after_def)

lemma identifiers_clean_snoc:
  assumes "identifiers_clean p (ps @ [b])"
  shows "identifiers_clean p ps" and "polluted_after p ps \<longrightarrow> branch b \<noteq> ''executed''"
  using assms by (auto simp: identifiers_clean_def polluted_after_def)

lemma branches_loop_buckets:
  "\<forall>b\<in>set bs. 1 \<le> line b \<Longrightarrow> identifiers_clean p bs \<Longrightarrow>
   branches_loop bs p Map.empty = (Inr (merged_buckets bs), polluted_after p bs)"
proof (induction bs rule: rev_induct)
  case Nil
  show ?case by (simp add: merged_buckets_def polluted_after_def fun_eq_iff)
next
  case (snoc b ps)
  have "branches_loop ps p Map.empty = (Inr (merged_buckets ps), polluted_after p ps)"
    using snoc identifiers_clean_snoc(1) [OF snoc.prems(2)] by simp
  moreover have "merge_branch b (polluted_after p ps) (merged_buckets ps) =
      (Inr (merged_buckets (ps @ [b])), polluted_after p ps \<or> branch b = ''__proto__'')"
    using snoc.prems(1) identifiers_clean_snoc(2) [OF snoc.prems(2)]
    by (intro merge_branch_bucket) auto
  ultimately show ?case
    by (simp add: branches_loop_append polluted_after_snoc)
qed

lemma lines_loop_cong:
  "\<forall>l\<in>set ls. m (line l) = m' (line l) \<Longrightarrow> lines_loop ls m ds = lines_loop ls m' ds"
  by (induction ls arbitrary: ds) (auto split: sum.splits)

lemma lines_loop_records:
  "\<forall>l\<in>set ls. 1 \<le> line l \<Longrightarrow>
   lines_loop ls (merged_buckets bs) ds = Inr (ds @ line_records ls bs)"
proof (induction ls arbitrary: ds)
  case Nil
  show ?case by (simp add: line_records_def)
next
  case (Cons l ls)
  have "new_Position (line l - 1) 0 = Inr (Position (line l - 1) 0)"
    using Cons.prems by (simp add: new_Position_def)
  moreover have "line_records (l # ls) bs =
      StatementCoverage (hit l) (Position (line l - 1) 0)
        (object_values (case merged_buckets bs (line l) of None \<Rightarrow> [] | Some r \<Rightarrow> r)) #
      line_records ls bs"
    by (simp add: line_records_def bucket_of_buckets)
  ultimately show ?case
    using Cons by simp
qed

lemma statements_append: "statements (xs @ ys) = statements xs @ statements ys"
  by (induction xs rule: statements.induct) auto


lemma statements_line_records:
  "statements (line_records ls bs) =
     map (\<lambda>l. (hit l, Position (line l - 1) 0, object_values (merged_bucket (line l) bs))) ls"
  by (induction ls) (auto simp: line_records_def)


lemma statements_declaration_records: "statements (declaration_records f fns) = []"
  by (induction fns) (auto simp: declaration_records_def)


lemma is_mangled_nonempty: "is_mangled n \<Longrightarrow> n \<noteq> []"
  by (auto simp: is_mangled_def)

lemma push_declaration_positive:
  "1 \<le> line fn \<Longrightarrow>
   push_declaration n fn ds = Inr (ds @ [DeclarationCoverage n (hit fn) (Position (line fn - 1) 0)])"
  by (simp add: push_declaration_def new_Position_def)

lemma declaration_records_Cons:
  "declaration_records f (fn # fns) =
     (if name fn = [] then declaration_records f fns
      else DeclarationCoverage (shown_name f (name fn)) (hit fn) (Position (line fn - 1) 0) #
           declaration_records f fns)"
  by (simp add: declaration_records_def)

lemma mangled_names_Cons:
  "mangled_names (fn # fns) =
     (if is_mangled (name fn) then name fn # mangled_names fns else mangled_names fns)"
  by (simp add: mangled_names_def)

lemma functions_loop_loaded:
  "demangle s = DFunction f \<Longrightarrow> \<forall>fn\<in>set fns. 1 \<le> line fn \<Longrightarrow>
   functions_loop loadDemangle fns ds s =
     (Inr (ds @ declaration_records f fns), s\<lparr>demangled := demangled s @ mangled_names fns\<rparr>)"
proof (induction fns arbitrary: ds s)
  case Nil
  show ?case by (simp add: declaration_records_def mangled_names_def)
next
  case (Cons fn fns)
  show ?case
  proof (cases "name fn = []")
    case True
    then show ?thesis
      using Cons by (simp add: declaration_records_Cons mangled_names_Cons is_mangled_def)
  next
    case False
    show ?thesis
    proof (cases "is_mangled (name fn)")
      case True
      let ?s1 = "s\<lparr>demangled := demangled s @ [name fn]\<rparr>"
      have "display_name loadDemangle (name fn) s = (Inr (f (name fn)), ?s1)"
        using True Cons.prems(1)
        by (simp add: display_name_def ensure_demangle_def demangle_enter_def call_demangle_def)
      moreover have "demangle ?s1 = DFunction f"
        using Cons.prems(1) by simp
      ultimately show ?thesis
        using Cons.IH [of ?s1] Cons.prems(2) True False
        by (simp add: push_declaration_positive declaration_records_Cons mangled_names_Cons
            shown_name_def)
    next
      case unmangled: False
      then have "display_name loadDemangle (name fn) s = (Inr (name fn), s)"
        by (simp add: display_name_def)
      then show ?thesis
        using Cons.IH [of s] Cons.prems unmangled False
        by (simp add: push_declaration_positive declaration_records_Cons mangled_names_Cons
            shown_name_def)
    qed
  qed
qed

lemma ensure_demangle_awaited:
  "awaited loadDemangle s = Inr f \<Longrightarrow>
   ensure_demangle loadDemangle s = (None, (entered s)\<lparr>demangle := DFunction f\<rparr>)"
  by (cases "demangle s")
     (auto simp: awaited_def ensure_demangle_def demangle_enter_def demangle_resume_def entered_def)

lemma ensure_demangle_rejected:
  "awaited loadDemangle s = Inl reason \<Longrightarrow>
   ensure_demangle loadDemangle s = (Some (LoadRejected reason), entered s)"
  by (cases "demangle s")
     (auto simp: awaited_def ensure_demangle_def demangle_enter_def demangle_resume_def entered_def)

lemma functions_loop_success:
  "mangled_names fns \<noteq> [] \<longrightarrow> awaited loadDemangle s = Inr f \<Longrightarrow>
   \<forall>fn\<in>set fns. 1 \<le> line fn \<Longrightarrow>
   functions_loop loadDemangle fns ds s =
     (Inr (ds @ declaration_records f fns),
      if mangled_names fns = [] then s else loaded f (mangled_names fns) s)"
proof (induction fns arbitrary: ds)
  case Nil
  show ?case by (simp add: declaration_records_def mangled_names_def)
next
  case (Cons fn fns)
  show ?case
  proof (cases "name fn = []")
    case True
    then show ?thesis
      using Cons by (simp add: declaration_records_Cons mangled_names_Cons is_mangled_def)
  next
    case False
    show ?thesis
    proof (cases "is_mangled (name fn)")
      case True
      then have aw: "awaited loadDemangle s = Inr f"
        using Cons.prems(1) by (simp add: mangled_names_Cons)
      let ?s1 = "(entered s)\<lparr>demangle := DFunction f\<rparr>"
      let ?s2 = "?s1\<lparr>demangled := demangled ?s1 @ [name fn]\<rparr>"
      have "display_name loadDemangle (name fn) s = (Inr (f (name fn)), ?s2)"
        using True by (simp add: display_name_def ensure_demangle_awaited [OF aw] call_demangle_def)
      moreover have "functions_loop loadDemangle fns
            (ds @ [DeclarationCoverage (f (name fn)) (hit fn) (Position (line fn - 1) 0)]) ?s2 =
          (Inr ((ds @ [DeclarationCoverage (f (name fn)) (hit fn) (Position (line fn - 1) 0)]) @
                declaration_records f fns),
           ?s2\<lparr>demangled := demangled ?s2 @ mangled_names fns\<rparr>)"
        using Cons.prems(2) by (intro functions_loop_loaded) auto
      moreover have "demangled (entered s) = demangled s"
        by (cases "demangle s") (auto simp: entered_def demangle_enter_def)
      ultimately show ?thesis
        using True False Cons.prems(2)
        by (simp add: push_declaration_positive declaration_records_Cons mangled_names_Cons
            shown_name_def loaded_def)
    next
      case unmangled: False
      then have "display_name loadDemangle (name fn) s = (Inr (name fn), s)"
        by (simp add: display_name_def)
      then show ?thesis
        using Cons unmangled False
        by (simp add: push_declaration_positive declaration_records_Cons mangled_names_Cons
            shown_name_def)
    qed
  qed
qed

lemma functions_loop_rejected:
  "awaited loadDemangle s = Inl reason \<Longrightarrow> mangled_names fns \<noteq> [] \<Longrightarrow>
   \<forall>fn\<in>set fns. 1 \<le> line fn \<Longrightarrow>
   functions_loop loadDemangle fns ds s = (Inl (LoadRejected reason), entered s)"
proof (induction fns arbitrary: ds)
  case Nil
  then show ?case by (simp add: mangled_names_def)
next
  case (Cons fn fns)
  show ?case
  proof (cases "is_mangled (name fn)")
    case True
    then show ?thesis
      using is_mangled_nonempty [OF True] Cons.prems(1)
      by (simp add: display_name_def ensure_demangle_rejected)
  next
    case False
    then have "display_name loadDemangle (name fn) s = (Inr (name fn), s)"
      by (simp add: display_name_def)
    then show ?thesis
      using Cons False by (simp add: push_declaration_positive mangled_names_Cons)
  qed
qed

lemma awaited_branches_done: "awaited loadDemangle (branches_done sec s) = awaited loadDemangle s"
  by (simp add: awaited_def branches_done_def split: demangle_cache.splits)

lemma branches_of_section:
  assumes "positive_lines sec"
      and "identifiers_clean (prototype_executed s) (details (branches sec))"
  shows "branches_loop (details (branches sec)) (prototype_executed s) Map.empty =
           (Inr (merged_buckets (details (branches sec))),
            polluted_after (prototype_executed s) (details (branches sec)))"
    and "lines_loop (details (lines sec)) (merged_buckets (details (branches sec))) [] =
           Inr (line_records (details (lines sec)) (details (branches sec)))"
    and "\<forall>fn\<in>set (details (functions sec)). 1 \<le> line fn"
proof -
  show "branches_loop (details (branches sec)) (prototype_executed s) Map.empty =
           (Inr (merged_buckets (details (branches sec))),
            polluted_after (prototype_executed s) (details (branches sec)))"
    using assms by (intro branches_loop_buckets) (simp_all add: positive_lines_def list_all_iff)
  have "lines_loop (details (lines sec)) (merged_buckets (details (branches sec))) [] =
           Inr ([] @ line_records (details (lines sec)) (details (branches sec)))"
    using assms(1) by (intro lines_loop_records) (simp add: positive_lines_def list_all_iff)
  then show "lines_loop (details (lines sec)) (merged_buckets (details (branches sec))) [] =
           Inr (line_records (details (lines sec)) (details (branches sec)))"
    by simp
  show "\<forall>fn\<in>set (details (functions sec)). 1 \<le> line fn"
    using assms(1) by (simp add: positive_lines_def list_all_iff)
qed

lemma expansion_success:
  assumes "positive_lines sec"
      and "identifiers_clean (prototype_executed s) (details (branches sec))"
      and "mangled_names (details (functions sec)) \<noteq> [] \<longrightarrow> awaited loadDemangle s = Inr f"
  shows "loadDetailedCoverage loadDemangle (Some sec) s =
           (Inr (line_records (details (lines sec)) (details (branches sec)) @
                 declaration_records f (details (functions sec))),
            if mangled_names (details (functions sec)) = [] then branches_done sec s
            else loaded f (mangled_names (details (functions sec))) (branches_done sec s))"
proof -
  note parts = branches_of_section [OF assms(1,2)]
  have "mangled_names (details (functions sec)) \<noteq> [] \<longrightarrow>
          awaited loadDemangle (branches_done sec s) = Inr f"
    using assms(3) by (simp add: awaited_branches_done)
  then show ?thesis
    using functions_loop_success [OF _ parts(3), of loadDemangle "branches_done sec s" f]
    by (simp add: loadDetailedCoverage_def parts(1,2) branches_done_def)
qed

lemma expansion_rejected:
  assumes "positive_lines sec"
      and "identifiers_clean (prototype_executed s) (details (branches sec))"
      and "mangled_names (details (functions sec)) \<noteq> []"
      and "awaited loadDemangle s = Inl reason"
  shows "loadDetailedCoverage loadDemangle (Some sec) s =
           (Inl (LoadRejected reason), entered (branches_done sec s))"
proof -
  note parts = branches_of_section [OF assms(1,2)]
  have "awaited loadDemangle (branches_done sec s) = Inl reason"
    using assms(4) by (simp add: awaited_branches_done)
  then show ?thesis
    using functions_loop_rejected [OF _ assms(3) parts(3), of loadDemangle "branches_done sec s" reason]
    by (simp add: loadDetailedCoverage_def parts(1,2) branches_done_def)
qed

section \<open>What the demangler is called with\<close>


lemma functions_loop_log:
  "set (demangled (snd (functions_loop loadDemangle fns ds s))) \<subseteq>
     set (demangled s) \<union> set (mangled_names fns)"
proof (induction fns arbitrary: ds s)
  case Nil
  show ?case by simp
next
  case (Cons fn fns)
  show ?case
  proof (cases "name fn = []")
    case True
    then show ?thesis
      using Cons [of ds s] by (auto simp: mangled_names_Cons)
  next
    case False
    obtain r s1 where d: "display_name loadDemangle (name fn) s = (r, s1)"
      by (cases "display_name loadDemangle (name fn) s")
    have s1: "set (demangled s1) \<subseteq>
                set (demangled s) \<union> (if is_mangled (name fn) then {name fn} else {})"
      using d
      by (auto simp: display_name_def ensure_demangle_def demangle_enter_def demangle_resume_def
          call_demangle_def
          split: if_splits prod.splits option.splits sum.splits demangle_cache.splits)
    show ?thesis
    proof (cases r)
      case (Inl e)
      then show ?thesis
        using d s1 False by (auto simp: mangled_names_Cons split: if_splits)
    next
      case (Inr n)
      show ?thesis
      proof (cases "push_declaration n fn ds")
        case (Inl e)
        then show ?thesis
          using d s1 False Inr by (auto simp: mangled_names_Cons split: if_splits)
      next
        case ds1: (Inr ds1)
        have "set (demangled (snd (functions_loop loadDemangle fns ds1 s1))) \<subseteq>
                set (demangled s1) \<union> set (mangled_names fns)"
          by (rule Cons)
        then show ?thesis
          using d s1 False Inr ds1 by (auto simp: mangled_names_Cons split: if_splits)
      qed
    qed
  qed
qed

lemma merged_bucket_filter:
  assumes "\<forall>b\<in>set bs. line b = l \<longrightarrow> keep b"
  shows "merged_bucket l (filter keep bs) = merged_bucket l bs"
proof -
  have a: "filter (\<lambda>b. line b = l) (filter keep bs) = filter (\<lambda>b. line b = l) bs"
    using assms by (auto simp: filter_filter intro: filter_cong)
  have b: "\<And>k. filter (\<lambda>b. line b = l \<and> branch b = k) (filter keep bs) =
                 filter (\<lambda>b. line b = l \<and> branch b = k) bs"
    using assms by (auto simp: filter_filter intro: filter_cong)
  show ?thesis
    by (simp only: merged_bucket_def own_identifiers_def accumulated_def a b)
qed

section \<open>The two descriptions of a call agree\<close>

text \<open>
  The expansion of one call at a time is the interleaved expansion with no other
  call in between.
\<close>

lemma functions_loop_alone:
  "functions_loop loadDemangle fns ds s = run_alone loadDemangle (run_functions fns ds s)"
proof (induction fns arbitrary: ds s)
  case Nil
  show ?case by simp
next
  case (Cons fn fns)
  show ?case
  proof (cases "demangle s")
    case DUndefined
    then show ?thesis
      using Cons
      by (simp add: display_name_def ensure_demangle_def demangle_enter_def resume_call_def
          emit_demangled_def split: prod.splits option.splits sum.splits)
  next
    case (DPromise k)
    then show ?thesis
      using Cons
      by (simp add: display_name_def ensure_demangle_def demangle_enter_def resume_call_def
          emit_demangled_def split: prod.splits option.splits sum.splits)
  next
    case (DFunction f)
    then show ?thesis
      using Cons
      by (simp add: display_name_def ensure_demangle_def demangle_enter_def resume_call_def
          emit_demangled_def split: prod.splits option.splits sum.splits)
  qed
qed

lemma loadDetailedCoverage_alone:
  "loadDetailedCoverage loadDemangle found s = run_alone loadDemangle (start_call found s)"
  by (simp add: loadDetailedCoverage_def start_call_def functions_loop_alone
      split: option.splits sum.splits prod.splits)

section \<open>The guard under interleaving\<close>

lemma emit_demangled_guarded:
  "guarded loadDemangle s \<Longrightarrow> emit_demangled fn ds s = (r, s') \<Longrightarrow>
   guarded loadDemangle s' \<and> loads s' = loads s"
  by (auto simp: emit_demangled_def call_demangle_def guarded_def
      split: demangle_cache.splits sum.splits prod.splits)

lemma demangle_enter_guarded:
  "guarded loadDemangle s \<Longrightarrow> demangle_enter s = (w, s') \<Longrightarrow>
   guarded loadDemangle s' \<and> loads s \<le> loads s' \<and> (\<forall>k. w = Some k \<longrightarrow> k < loads s')"
  by (auto simp: demangle_enter_def guarded_def split: demangle_cache.splits)

lemma run_functions_guarded:
  "guarded loadDemangle s \<Longrightarrow> run_functions fns ds s = (t, s') \<Longrightarrow>
   guarded loadDemangle s' \<and> loads s \<le> loads s' \<and> waits_below (loads s') t"
proof (induction fns arbitrary: ds s)
  case Nil
  then show ?case by (auto simp: waits_below_def)
next
  case (Cons fn fns)
  show ?case
  proof (cases "length (name fn) = 0")
    case True
    then show ?thesis
      using Cons.IH [of s ds] Cons.prems by simp
  next
    case nonempty: False
    show ?thesis
    proof (cases "is_mangled (name fn)")
      case True
      obtain w s1 where enter: "demangle_enter s = (w, s1)"
        by (cases "demangle_enter s")
      note g1 = demangle_enter_guarded [OF Cons.prems(1) enter]
      show ?thesis
      proof (cases w)
        case (Some k)
        then show ?thesis
          using Cons.prems(2) nonempty True enter g1 by (auto simp: waits_below_def)
      next
        case None
        obtain r s2 where emit: "emit_demangled fn ds s1 = (r, s2)"
          by (cases "emit_demangled fn ds s1")
        have g2: "guarded loadDemangle s2 \<and> loads s2 = loads s1"
          using emit_demangled_guarded [where loadDemangle = loadDemangle, OF _ emit] g1 by simp
        show ?thesis
        proof (cases r)
          case (Inl e)
          then show ?thesis
            using Cons.prems(2) nonempty True enter None emit g1 g2
            by (auto simp: waits_below_def)
        next
          case (Inr ds1)
          then have "run_functions fns ds1 s2 = (t, s')"
            using Cons.prems(2) nonempty True enter None emit by simp
          then show ?thesis
            using Cons.IH [of s2 ds1] g1 g2 by auto
        qed
      qed
    next
      case False
      show ?thesis
      proof (cases "push_declaration (name fn) fn ds")
        case (Inl e)
        then show ?thesis
          using Cons.prems nonempty False by (auto simp: waits_below_def)
      next
        case (Inr ds1)
        then have "run_functions fns ds1 s = (t, s')"
          using Cons.prems(2) nonempty False by simp
        then show ?thesis
          using Cons.IH [of s ds1] Cons.prems(1) by auto
      qed
    qed
  qed
qed

lemma guarded_prototype:
  "guarded loadDemangle (s\<lparr>prototype_executed := p\<rparr>) = guarded loadDemangle s"
  by (simp add: guarded_def split: demangle_cache.splits)

lemma start_call_guarded:
  assumes "guarded loadDemangle s" and "start_call found s = (t, s')"
  shows "guarded loadDemangle s' \<and> loads s \<le> loads s' \<and> waits_below (loads s') t"
proof (cases found)
  case None
  then show ?thesis
    using assms by (auto simp: start_call_def waits_below_def)
next
  case (Some sec)
  obtain r p where b: "branches_loop (details (branches sec)) (prototype_executed s) Map.empty = (r, p)"
    by (cases "branches_loop (details (branches sec)) (prototype_executed s) Map.empty")
  let ?s1 = "s\<lparr>prototype_executed := p\<rparr>"
  have g1: "guarded loadDemangle ?s1" "loads ?s1 = loads s"
    using assms(1) by (simp_all add: guarded_prototype)
  show ?thesis
  proof (cases r)
    case (Inl e)
    then show ?thesis
      using assms(2) Some b g1 by (auto simp: start_call_def waits_below_def)
  next
    case (Inr m)
    show ?thesis
    proof (cases "lines_loop (details (lines sec)) m []")
      case (Inl e)
      then show ?thesis
        using assms(2) Some b Inr g1 by (auto simp: start_call_def waits_below_def)
    next
      case ds: (Inr ds)
      then have "run_functions (details (functions sec)) ds ?s1 = (t, s')"
        using assms(2) Some b Inr by (simp add: start_call_def)
      then show ?thesis
        using run_functions_guarded [OF g1(1)] g1(2) by fastforce
    qed
  qed
qed

lemma resume_call_guarded:
  assumes "guarded loadDemangle s" and "k < loads s"
      and "resume_call (loadDemangle k) fn fns ds s = (t, s')"
  shows "guarded loadDemangle s' \<and> loads s \<le> loads s' \<and> waits_below (loads s') t"
proof -
  have k: "k = 0" and one: "loads s = 1"
    using assms(1,2) by (auto simp: guarded_def split: demangle_cache.splits)
  show ?thesis
  proof (cases "loadDemangle 0")
    case (Inl reason)
    then show ?thesis
      using assms k by (auto simp: resume_call_def demangle_resume_def waits_below_def)
  next
    case (Inr f)
    let ?s1 = "s\<lparr>demangle := DFunction f\<rparr>"
    have g1: "guarded loadDemangle ?s1"
      using Inr one by (simp add: guarded_def)
    obtain r s2 where emit: "emit_demangled fn ds ?s1 = (r, s2)"
      by (cases "emit_demangled fn ds ?s1")
    have g2: "guarded loadDemangle s2 \<and> loads s2 = loads ?s1"
      by (rule emit_demangled_guarded [OF g1 emit])
    show ?thesis
    proof (cases r)
      case (Inl e)
      then show ?thesis
        using assms(3) k Inr emit g2 by (auto simp: resume_call_def demangle_resume_def waits_below_def)
    next
      case ds1: (Inr ds1)
      then have "run_functions fns ds1 s2 = (t, s')"
        using assms(3) k Inr emit by (simp add: resume_call_def demangle_resume_def)
      then show ?thesis
        using run_functions_guarded [of loadDemangle s2 fns ds1 t s'] g2 by auto
    qed
  qed
qed

lemma waits_below_mono: "waits_below n t \<Longrightarrow> n \<le> m \<Longrightarrow> waits_below m t"
  by (auto simp: waits_below_def split: task.splits)

lemma reachable_guarded:
  "reachable loadDemangle x \<Longrightarrow>
   guarded loadDemangle (profile x) \<and> (\<forall>t\<in>set (calls x). waits_below (loads (profile x)) t)"
proof (induction rule: reachable.induct)
  case (initial polluted)
  show ?case by (simp add: initial_session_def initial_profile_def guarded_def)
next
  case (step x y)
  from step.hyps(2) show ?case
  proof (cases rule: session_step.cases)
    case (call found t s)
    have "guarded loadDemangle s \<and> loads (profile x) \<le> loads s \<and> waits_below (loads s) t"
      using start_call_guarded [where loadDemangle = loadDemangle, OF _ call(2)] step.IH by simp
    then show ?thesis
      using call(1) step.IH by (auto intro: waits_below_mono)
  next
    case (settle k)
    then show ?thesis using step.IH by simp
  next
    case (resume i k fn fns ds t s)
    have "waits_below (loads (profile x)) (calls x ! i)"
      using step.IH resume(2) by simp
    then have "k < loads (profile x)"
      using resume(3) by (simp add: waits_below_def)
    then have g: "guarded loadDemangle s \<and> loads (profile x) \<le> loads s \<and> waits_below (loads s) t"
      using resume_call_guarded [where loadDemangle = loadDemangle, OF _ _ resume(5)] step.IH by simp
    have "\<forall>u\<in>set ((calls x)[i := t]). waits_below (loads s) u"
    proof
      fix u assume "u \<in> set ((calls x)[i := t])"
      then have "u = t \<or> u \<in> set (calls x)"
        using set_update_subset_insert [of "calls x" i t] by auto
      then show "waits_below (loads s) u"
        using g step.IH by (auto intro: waits_below_mono)
    qed
    then show ?thesis
      using resume(1) g by simp
  qed
qed

section \<open>The tasks of a batch\<close>

lemma new_FileCoverage_valid:
  "counts_valid sec \<Longrightarrow> new_FileCoverage roots sec = Inr (summary_of roots sec)"
  by (simp add: new_FileCoverage_def new_TestCoverageCount_def counts_valid_def summary_of_def)

lemma sections_loop_valid:
  "list_all counts_valid secs \<Longrightarrow>
   sections_loop roots secs run =
     (None, run\<lparr>testRunData := testRunData run @ map (\<lambda>sec. (summary_of roots sec, sec)) secs,
                coverage := coverage run @ map (summary_of roots) secs\<rparr>)"
  by (induction secs arbitrary: run) (auto simp: new_FileCoverage_valid)

lemma item_task_parsed:
  assumes "parsed h item = Some secs" and "list_all counts_valid secs"
      and "\<not> cancelled_after_read h item" and "\<not> cancelled_after_parse h item"
  shows "item_task h item run =
           (None, run\<lparr>testRunData := testRunData run @
                         map (\<lambda>sec. (summary_of (workspaceFolders h) sec, sec)) secs,
                      coverage := coverage run @ map (summary_of (workspaceFolders h)) secs\<rparr>)"
  using assms
  by (auto simp: item_task_def parsed_def sections_loop_valid split: sum.splits)

lemma item_task_parse_rejected:
  assumes "readFile h item = Inr contents" and "\<not> cancelled_after_read h item"
      and "parseLcov h contents = Inl e"
  shows "item_task h item run = (Some e, run)" and "parsed h item = None"
  using assms by (simp_all add: item_task_def parsed_def)

lemma all_tasks_one_rejected:
  assumes "readFile h bad = Inr contents" and "\<not> cancelled_after_read h bad"
      and "parseLcov h contents = Inl e"
      and "\<forall>item\<in>set items. item \<noteq> bad \<longrightarrow>
             (\<exists>secs. parsed h item = Some secs \<and> list_all counts_valid secs \<and>
                     \<not> cancelled_after_read h item \<and> \<not> cancelled_after_parse h item)"
  shows "fst (all_tasks h items run) = map (\<lambda>item. e) (filter (\<lambda>item. item = bad) items) \<and>
         coverage (snd (all_tasks h items run)) =
           coverage run @
           concat (map (\<lambda>item. case parsed h item of
                                  None \<Rightarrow> []
                                | Some secs \<Rightarrow> map (summary_of (workspaceFolders h)) secs) items) \<and>
         ended (snd (all_tasks h items run)) = ended run"
  using assms(4)
proof (induction items arbitrary: run)
  case Nil
  show ?case by simp
next
  case (Cons item items)
  show ?case
  proof (cases "item = bad")
    case True
    have "item_task h item run = (Some e, run)" "parsed h item = None"
      using item_task_parse_rejected [OF assms(1-3)] True by simp_all
    then show ?thesis
      using Cons.IH [of run] Cons.prems True by (auto split: prod.splits)
  next
    case False
    then obtain secs where secs: "parsed h item = Some secs" "list_all counts_valid secs"
        "\<not> cancelled_after_read h item" "\<not> cancelled_after_parse h item"
      using Cons.prems by auto
    let ?run1 = "run\<lparr>testRunData := testRunData run @
                         map (\<lambda>sec. (summary_of (workspaceFolders h) sec, sec)) secs,
                      coverage := coverage run @ map (summary_of (workspaceFolders h)) secs\<rparr>"
    have "item_task h item run = (None, ?run1)"
      by (rule item_task_parsed [OF secs])
    then show ?thesis
      using Cons.IH [of ?run1] Cons.prems False secs(1) by (auto split: prod.splits)
  qed
qed

lemma entered_undefined:
  "demangle s = DUndefined \<Longrightarrow>
   entered s = s\<lparr>demangle := DPromise (loads s), loads := Suc (loads s)\<rparr>"
  by (simp add: entered_def demangle_enter_def)

lemma entered_promise: "demangle s = DPromise k \<Longrightarrow> entered s = s"
  by (simp add: entered_def demangle_enter_def)

section \<open>Branch records attached to a line\<close>

text \<open>
  The values of a bucket are its records in another order.  While the hit counts
  are safe, the counter of a record is the exact sum of the hit counts of its raw
  records.  So on a line none of whose identifiers is an inherited member name the
  attached records are, up to their order, the branch group of the specification:
  one record for every distinct identifier seen on the line, carrying the sum of
  the hit counts of its raw records and sitting at the line minus one, and as many
  records as there are distinct identifiers.
\<close>

lemma object_values_permutes: "mset (object_values r) = mset (map snd r)"
proof -
  have "mset (sort_key (\<lambda>p. numeral_value (fst p)) (filter (\<lambda>p. is_array_index (fst p)) r) @
              filter (\<lambda>p. \<not> is_array_index (fst p)) r) = mset r"
    using multiset_partition [of "mset r" "\<lambda>p. is_array_index (fst p)"] by simp
  then show ?thesis
    by (simp only: object_values_def mset_map)
qed

lemma plus_number_safe:
  "\<bar>a + h\<bar> \<le> 9007199254740992 \<Longrightarrow> plus_number (Finite a) h = Finite (a + h)"
  by (simp add: plus_number_def round_number_def)

lemma foldl_plus_number_safe:
  "\<bar>a\<bar> + sum_list (map abs hs) \<le> 9007199254740992 \<Longrightarrow>
   foldl plus_number (Finite a) hs = Finite (a + sum_list hs)"
proof (induction hs arbitrary: a)
  case Nil
  show ?case by simp
next
  case (Cons h hs)
  have "\<bar>a + h\<bar> \<le> \<bar>a\<bar> + \<bar>h\<bar>"
    by simp
  moreover have "0 \<le> sum_list (map abs hs)"
    by (induction hs) auto
  ultimately have safe: "\<bar>a + h\<bar> \<le> 9007199254740992"
      and rest: "\<bar>a + h\<bar> + sum_list (map abs hs) \<le> 9007199254740992"
    using Cons.prems by simp_all
  show ?case
    using Cons.IH [OF rest] by (simp add: plus_number_safe [OF safe] add.assoc)
qed

lemma sum_abs_filter:
  "sum_list (map abs (map hit (filter keep bs))) \<le> sum_list (map (\<lambda>b. \<bar>hit b\<bar>) bs)"
  by (induction bs) auto

lemma accumulated_safe:
  assumes "safe_hits bs"
  shows "accumulated l k bs = Finite (summed_hits l k bs)"
proof -
  let ?hs = "map hit (filter (\<lambda>b. line b = l \<and> branch b = k) bs)"
  have "\<bar>0\<bar> + sum_list (map abs ?hs) \<le> (9007199254740992 :: int)"
    using assms sum_abs_filter [of "\<lambda>b. line b = l \<and> branch b = k" bs]
    by (simp add: safe_hits_def)
  then have "foldl plus_number (Finite 0) ?hs = Finite (0 + sum_list ?hs)"
    by (rule foldl_plus_number_safe)
  then show ?thesis
    by (simp add: accumulated_def summed_hits_def)
qed

lemma own_identifiers_all:
  assumes "\<forall>b\<in>set bs. line b = l \<longrightarrow> branch b \<notin> set inherited_keys"
  shows "own_identifiers l bs = identifiers l bs"
proof -
  have "filter (\<lambda>k. k \<notin> set inherited_keys) (map branch (filter (\<lambda>b. line b = l) bs)) =
        map branch (filter (\<lambda>b. line b = l) bs)"
    using assms by (auto simp: filter_id_conv)
  then show ?thesis
    by (simp add: own_identifiers_def identifiers_def)
qed

lemma attached_branch_group:
  assumes "\<forall>b\<in>set bs. line b = l \<longrightarrow> branch b \<notin> set inherited_keys" and "safe_hits bs"
  shows "mset (object_values (merged_bucket l bs)) = mset (branch_group l bs)"
proof -
  have "map snd (merged_bucket l bs) = branch_group l bs"
    by (simp add: merged_bucket_def branch_group_def own_identifiers_all [OF assms(1)]
        accumulated_safe [OF assms(2)] comp_def)
  then show ?thesis
    by (simp add: object_values_permutes)
qed

lemma branch_group_records:
  "distinct (map label (branch_group l bs)) \<and>
   set (map label (branch_group l bs)) = {branch b |b. b \<in> set bs \<and> line b = l} \<and>
   (\<forall>c\<in>set (branch_group l bs).
      executed c = Finite (summed_hits l (label c) bs) \<and> location c = Position (l - 1) 0) \<and>
   length (branch_group l bs) = card {branch b |b. b \<in> set bs \<and> line b = l}"
proof -
  have labels: "map label (branch_group l bs) = identifiers l bs"
    by (simp add: branch_group_def comp_def)
  have d: "distinct (identifiers l bs)"
    by (simp add: identifiers_def)
  have s: "set (identifiers l bs) = {branch b |b. b \<in> set bs \<and> line b = l}"
    by (auto simp: identifiers_def)
  have "length (branch_group l bs) = card (set (identifiers l bs))"
    using d by (simp add: branch_group_def distinct_card)
  then show ?thesis
    using labels d s by (auto simp: branch_group_def)
qed

text \<open>
  Claim C1.  Detail expansion is to produce exactly one branch record per distinct
  pair of line and branch identifier, with the summed hit counts, so that a line
  carries as many branch records as distinct identifiers were seen on it.  For an
  identifier that is a member name every plain object inherits this fails: the
  bucket reads the inherited member, creates no record and adds the hit count to
  that member.  Line 10 below has the two identifiers \<open>constructor\<close> and \<open>0\<close> and
  gets one branch record only.
\<close>

theorem inherited_identifier_dropped:
  "fst (loadDetailedCoverage loadDemangle
     (Some \<lparr>path = ''a.c'',
        lines = \<lparr>instrumented = 1, hit_count = 1, details = [\<lparr>line = 10, hit = 3\<rparr>]\<rparr>,
        branches = \<lparr>instrumented = 2, hit_count = 2,
                     details = [\<lparr>line = 10, hit = 1, branch = ''constructor''\<rparr>,
                                \<lparr>line = 10, hit = 2, branch = ''0''\<rparr>]\<rparr>,
        functions = \<lparr>instrumented = 0, hit_count = 0, details = []\<rparr>\<rparr>) s) =
   Inr [StatementCoverage 3 (Position 9 0) [BranchCoverage (Finite 2) (Position 9 0) ''0'']]"
  by (simp add: loadDetailedCoverage_def merge_branch_def ensure_branch_def add_executed_def
      get_property_def inherited_keys_def new_Position_def object_values_def
      plus_number_def round_number_def
      is_array_index_def is_digit_def numeral_value_def digit_value_def)

section \<open>Path resolution\<close>

text \<open>
  Without a root that is a prefix the raw path is used; otherwise the first root
  in order that is a prefix wins.  When the path continues with a separator after
  that root, the identity is the root joined with what follows the separator.
\<close>

lemma resolve_path_no_root:
  "\<forall>w\<in>set roots. \<not> startsWith p w \<Longrightarrow> resolve_path roots p = None"
  by (induction roots) auto

lemma resolve_path_first_prefix:
  "\<forall>w\<in>set before. \<not> startsWith p w \<Longrightarrow> startsWith p root \<Longrightarrow>
   resolve_path (before @ root # after) p =
     Some (UriJoinPath root (substring p (length root + 1)))"
  by (induction before) auto

lemma resolve_path_below_root:
  "\<forall>w\<in>set before. \<not> startsWith (root @ CHR ''/'' # rest) w \<Longrightarrow>
   resolve_path (before @ root # after) (root @ CHR ''/'' # rest) = Some (UriJoinPath root rest)"
  by (induction before) (auto simp: startsWith_def substring_def)

lemma resolve_path_scenario:
  "resolve_path [''/ws/a'', ''/ws/b''] ''/ws/b/src/x.c'' = Some (UriJoinPath ''/ws/b'' ''src/x.c'')"
  "resolve_path [''/ws/a'', ''/ws/b''] ''/other/x.c'' = None"
  by (simp_all add: startsWith_def substring_def)

text \<open>
  Claim C3.  The resolved identity is to come from the first root that is a prefix
  of the section path in whole path segments, that is, a prefix followed at once by
  a separator.  The test of the source is a plain string prefix and the character
  after the prefix is dropped unseen: with the roots \<open>/ws/a\<close> and \<open>/ws/ab\<close> the path
  \<open>/ws/ab/x.c\<close> is resolved against \<open>/ws/a\<close>, with the remainder \<open>/x.c\<close>.
\<close>

theorem partial_prefix_resolves:
  "resolve_path [''/ws/a'', ''/ws/ab''] ''/ws/ab/x.c'' = Some (UriJoinPath ''/ws/a'' ''/x.c'')"
  by (simp add: startsWith_def substring_def)

section \<open>A parse failure in a batch\<close>

text \<open>
  Claim C2, as the code has it.  In a batch in which the parser rejects one report
  file while every other file parses to sections with valid counts and is not
  cancelled, the run still receives the summaries of every parsed file, in the
  order in which the tasks finish, and the rejected file contributes none; but the
  failure is not contained: the batch call itself rejects with the parse error and
  the run is never ended.
\<close>

theorem parse_failure_rejects_batch:
  assumes "bad \<in> set items"
      and "readFile h bad = Inr contents" and "\<not> cancelled_after_read h bad"
      and "parseLcov h contents = Inl e"
      and "\<forall>item\<in>set items. item \<noteq> bad \<longrightarrow>
             (\<exists>secs. parsed h item = Some secs \<and> list_all counts_valid secs \<and>
                     \<not> cancelled_after_read h item \<and> \<not> cancelled_after_parse h item)"
  shows "coverage (snd (collectRunData h items table)) =
           concat (map (\<lambda>item. case parsed h item of
                                  None \<Rightarrow> []
                                | Some secs \<Rightarrow> map (summary_of (workspaceFolders h)) secs) items) \<and>
         parsed h bad = None \<and>
         fst (collectRunData h items table) = Some e \<and>
         \<not> ended (snd (collectRunData h items table))"
proof -
  let ?run0 = "\<lparr>testRunData = table, coverage = [], ended = False\<rparr>"
  obtain errs run where at: "all_tasks h items ?run0 = (errs, run)"
    by (cases "all_tasks h items ?run0")
  have facts: "errs = map (\<lambda>item. e) (filter (\<lambda>item. item = bad) items)"
      "coverage run =
         concat (map (\<lambda>item. case parsed h item of
                                None \<Rightarrow> []
                              | Some secs \<Rightarrow> map (summary_of (workspaceFolders h)) secs) items)"
      "ended run = False"
    using all_tasks_one_rejected [OF assms(2-5), of ?run0] at by simp_all
  have "filter (\<lambda>item. item = bad) items \<noteq> []"
    using assms(1) by (auto simp: filter_empty_conv)
  then obtain rest where "errs = e # rest"
    using facts(1) by (cases "filter (\<lambda>item. item = bad) items") auto
  then show ?thesis
    using at facts item_task_parse_rejected(2) [OF assms(2-4)]
    by (simp add: collectRunData_def)
qed

theorem parse_failure_rejects_batch_witness:
  "coverage (snd (collectRunData
      \<lparr>readFile = (\<lambda>item. Inr item),
       parseLcov = (\<lambda>contents. if contents = ''bad.info'' then Inl (ParseRejected ''no record'')
          else Inr [\<lparr>path = ''/ws/src/x.c'',
                     lines = \<lparr>instrumented = 4, hit_count = 1, details = []\<rparr>,
                     branches = \<lparr>instrumented = 6, hit_count = 2, details = []\<rparr>,
                     functions = \<lparr>instrumented = 3, hit_count = 3, details = []\<rparr>\<rparr>]),
       workspaceFolders = [''/ws''],
       cancelled_after_read = (\<lambda>item. False),
       cancelled_after_parse = (\<lambda>item. False)\<rparr>
      [''bad.info'', ''good.info''] [])) =
     [\<lparr>uri = UriJoinPath ''/ws'' ''src/x.c'',
       statementCoverage = \<lparr>covered = 1, total = 4\<rparr>,
       branchCoverage = \<lparr>covered = 2, total = 6\<rparr>,
       declarationCoverage = \<lparr>covered = 3, total = 3\<rparr>\<rparr>] \<and>
   fst (collectRunData
      \<lparr>readFile = (\<lambda>item. Inr item),
       parseLcov = (\<lambda>contents. if contents = ''bad.info'' then Inl (ParseRejected ''no record'')
          else Inr [\<lparr>path = ''/ws/src/x.c'',
                     lines = \<lparr>instrumented = 4, hit_count = 1, details = []\<rparr>,
                     branches = \<lparr>instrumented = 6, hit_count = 2, details = []\<rparr>,
                     functions = \<lparr>instrumented = 3, hit_count = 3, details = []\<rparr>\<rparr>]),
       workspaceFolders = [''/ws''],
       cancelled_after_read = (\<lambda>item. False),
       cancelled_after_parse = (\<lambda>item. False)\<rparr>
      [''bad.info'', ''good.info''] []) = Some (ParseRejected ''no record'')"
  using parse_failure_rejects_batch [of "''bad.info''" "[''bad.info'', ''good.info'']"
      "\<lparr>readFile = (\<lambda>item. Inr item),
       parseLcov = (\<lambda>contents. if contents = ''bad.info'' then Inl (ParseRejected ''no record'')
          else Inr [\<lparr>path = ''/ws/src/x.c'',
                     lines = \<lparr>instrumented = 4, hit_count = 1, details = []\<rparr>,
                     branches = \<lparr>instrumented = 6, hit_count = 2, details = []\<rparr>,
                     functions = \<lparr>instrumented = 3, hit_count = 3, details = []\<rparr>\<rparr>]),
       workspaceFolders = [''/ws''],
       cancelled_after_read = (\<lambda>item. False),
       cancelled_after_parse = (\<lambda>item. False)\<rparr>"
      "''bad.info''" "ParseRejected ''no record''" "[]"]
  by (simp add: parsed_def counts_valid_def summary_of_def startsWith_def substring_def)

text \<open>
  The batch of two report files, one parsing to one section and one rejected by
  the parser: the summary of the first file is published, and the batch ends with
  the parse error as its exception, the run not ended.
\<close>

theorem parse_failure_ends_batch:
  "(let h = \<lparr>readFile = (\<lambda>item. Inr item),
             parseLcov = (\<lambda>contents. if contents = ''good.info''
                then Inr [\<lparr>path = ''/other/x.c'',
                           lines = \<lparr>instrumented = 1, hit_count = 1, details = []\<rparr>,
                           branches = \<lparr>instrumented = 0, hit_count = 0, details = []\<rparr>,
                           functions = \<lparr>instrumented = 0, hit_count = 0, details = []\<rparr>\<rparr>]
                else Inl (ParseRejected ''no record'')),
             workspaceFolders = [''/ws''],
             cancelled_after_read = (\<lambda>item. False),
             cancelled_after_parse = (\<lambda>item. False)\<rparr>;
        result = collectRunData h [''good.info'', ''bad.info''] []
    in fst result = Some (ParseRejected ''no record'') \<and>
       ended (snd result) = False \<and>
       map uri (coverage (snd result)) = [UriFile ''/other/x.c''])"
  by (simp add: Let_def collectRunData_def item_task_def new_FileCoverage_def
      new_TestCoverageCount_def startsWith_def substring_def)

section \<open>A failed demangler load\<close>

text \<open>
  Claim C4, as the code has it.  Take two calls that get through their branch loop
  (positive line numbers, no type error from the identifier \<open>executed\<close>) and that
  each carry a mangled name.  When the variable is undefined and the load that the
  first call starts fails, that call throws the rejection and the variable keeps
  the rejected promise; the second call throws the same rejection and leaves the
  variable and the number of loads as they are: the load is not run again, and no
  function is ever stored, so no name is returned at all.
\<close>

theorem failed_load_is_kept:
  assumes "positive_lines sec" and "mangled_names (details (functions sec)) \<noteq> []"
      and "identifiers_clean (prototype_executed s) (details (branches sec))"
      and "demangle s = DUndefined" and "loadDemangle (loads s) = Inl reason"
      and "positive_lines sec'" and "mangled_names (details (functions sec')) \<noteq> []"
      and "identifiers_clean (polluted_after (prototype_executed s) (details (branches sec)))
             (details (branches sec'))"
  shows "loadDetailedCoverage loadDemangle (Some sec) s =
           (Inl (LoadRejected reason),
            (branches_done sec s)\<lparr>demangle := DPromise (loads s), loads := Suc (loads s)\<rparr>) \<and>
         loadDetailedCoverage loadDemangle (Some sec')
             ((branches_done sec s)\<lparr>demangle := DPromise (loads s), loads := Suc (loads s)\<rparr>) =
           (Inl (LoadRejected reason),
            (branches_done sec' (branches_done sec s))
              \<lparr>demangle := DPromise (loads s), loads := Suc (loads s)\<rparr>)"
proof -
  let ?s1 = "(branches_done sec s)\<lparr>demangle := DPromise (loads s), loads := Suc (loads s)\<rparr>"
  have s1: "entered (branches_done sec s) = ?s1"
    using assms(4) by (simp add: entered_undefined branches_done_def)
  have "awaited loadDemangle s = Inl reason"
    using assms(4,5) by (simp add: awaited_def)
  then have first: "loadDetailedCoverage loadDemangle (Some sec) s = (Inl (LoadRejected reason), ?s1)"
    using expansion_rejected [OF assms(1,3,2)] by (simp add: s1)
  have aw: "awaited loadDemangle ?s1 = Inl reason"
    using assms(5) by (simp add: awaited_def)
  have clean: "identifiers_clean (prototype_executed ?s1) (details (branches sec'))"
    using assms(8) by (simp add: branches_done_def)
  have s2: "entered (branches_done sec' ?s1) =
      (branches_done sec' (branches_done sec s))
        \<lparr>demangle := DPromise (loads s), loads := Suc (loads s)\<rparr>"
    by (simp add: entered_promise branches_done_def)
  have second: "loadDetailedCoverage loadDemangle (Some sec') ?s1 =
      (Inl (LoadRejected reason), entered (branches_done sec' ?s1))"
    by (rule expansion_rejected [OF assms(6) clean assms(7) aw])
  show ?thesis
    using first second s2 by simp
qed

theorem failed_load_is_kept_witness:
  "loadDetailedCoverage (\<lambda>k. if k = 0 then Inl ''boom'' else Inr (\<lambda>n. ''foo(int)''))
     (Some \<lparr>path = ''a.c'',
        lines = \<lparr>instrumented = 0, hit_count = 0, details = []\<rparr>,
        branches = \<lparr>instrumented = 0, hit_count = 0, details = []\<rparr>,
        functions = \<lparr>instrumented = 1, hit_count = 1,
                      details = [\<lparr>line = 5, hit = 1, name = ''_Z3fooi''\<rparr>]\<rparr>\<rparr>)
     \<lparr>demangle = DPromise 0, loads = 1, demangled = [], prototype_executed = False\<rparr> =
   (Inl (LoadRejected ''boom''),
    \<lparr>demangle = DPromise 0, loads = 1, demangled = [], prototype_executed = False\<rparr>)"
  using failed_load_is_kept [of
      "\<lparr>path = ''a.c'',
        lines = \<lparr>instrumented = 0, hit_count = 0, details = []\<rparr>,
        branches = \<lparr>instrumented = 0, hit_count = 0, details = []\<rparr>,
        functions = \<lparr>instrumented = 1, hit_count = 1,
                      details = [\<lparr>line = 5, hit = 1, name = ''_Z3fooi''\<rparr>]\<rparr>\<rparr>"
      "initial_profile False"
      "\<lambda>k. if k = 0 then Inl ''boom'' else Inr (\<lambda>n. ''foo(int)'')" "''boom''"
      "\<lparr>path = ''a.c'',
        lines = \<lparr>instrumented = 0, hit_count = 0, details = []\<rparr>,
        branches = \<lparr>instrumented = 0, hit_count = 0, details = []\<rparr>,
        functions = \<lparr>instrumented = 1, hit_count = 1,
                      details = [\<lparr>line = 5, hit = 1, name = ''_Z3fooi''\<rparr>]\<rparr>\<rparr>"]
  by (simp add: positive_lines_def mangled_names_def is_mangled_def initial_profile_def
      identifiers_clean_def polluted_after_def branches_done_def)

text \<open>
  A loader whose first load fails and whose second would succeed: the second
  expansion fails like the first and the loader has still been called once.
\<close>

theorem failed_load_not_retried:
  "(let loadDemangle = (\<lambda>k. if k = 0 then Inl ''boom'' else Inr (\<lambda>n. ''foo(int)''));
        found = Some \<lparr>path = ''a.c'',
                  lines = \<lparr>instrumented = 0, hit_count = 0, details = []\<rparr>,
                  branches = \<lparr>instrumented = 0, hit_count = 0, details = []\<rparr>,
                  functions = \<lparr>instrumented = 1, hit_count = 1,
                                details = [\<lparr>line = 5, hit = 1, name = ''_Z3fooi''\<rparr>]\<rparr>\<rparr>;
        first = loadDetailedCoverage loadDemangle found (initial_profile False);
        second = loadDetailedCoverage loadDemangle found (snd first)
    in fst first = Inl (LoadRejected ''boom'') \<and>
       fst second = Inl (LoadRejected ''boom'') \<and>
       loads (snd second) = 1 \<and>
       demangle (snd second) = DPromise 0)"
  by (simp add: Let_def loadDetailedCoverage_def display_name_def ensure_demangle_def
      demangle_enter_def demangle_resume_def call_demangle_def is_mangled_def
      initial_profile_def)

section \<open>Function records\<close>





section \<open>Line records\<close>

text \<open>
  A successful expansion returns exactly one line record per entry of the line
  details and in their order, each at the entry's line minus one, with the entry's
  hit count and with the values of that line's bucket attached.  When no branch
  identifier is an inherited member name and the hit counts are safe, the attached
  records are, up to their order, the branch group of the specification, which is
  empty exactly for a line without branch details.
\<close>

lemma line_records_of_expansion:
  assumes "positive_lines sec"
      and "identifiers_clean (prototype_executed s) (details (branches sec))"
      and "mangled_names (details (functions sec)) \<noteq> [] \<longrightarrow> awaited loadDemangle s = Inr f"
  shows "\<exists>ds. fst (loadDetailedCoverage loadDemangle (Some sec) s) = Inr ds \<and>
           statements ds =
             map (\<lambda>l. (hit l, Position (line l - 1) 0,
                        object_values (merged_bucket (line l) (details (branches sec)))))
               (details (lines sec))"
  by (simp add: expansion_success [OF assms] statements_append statements_line_records
      statements_declaration_records)

lemma line_records_with_branch_groups:
  assumes "positive_lines sec"
      and "identifiers_clean (prototype_executed s) (details (branches sec))"
      and "mangled_names (details (functions sec)) \<noteq> [] \<longrightarrow> awaited loadDemangle s = Inr f"
      and "\<forall>b\<in>set (details (branches sec)). branch b \<notin> set inherited_keys"
      and "safe_hits (details (branches sec))"
  shows "\<exists>ds. fst (loadDetailedCoverage loadDemangle (Some sec) s) = Inr ds \<and>
           map (\<lambda>(h, p, attached). (h, p, mset attached)) (statements ds) =
             map (\<lambda>l. (hit l, Position (line l - 1) 0,
                        mset (branch_group (line l) (details (branches sec)))))
               (details (lines sec))"
proof -
  have "\<And>l. mset (object_values (merged_bucket l (details (branches sec)))) =
             mset (branch_group l (details (branches sec)))"
    using assms(4,5) by (intro attached_branch_group) auto
  then show ?thesis
    using line_records_of_expansion [OF assms(1-3)] by (auto simp: comp_def)
qed

text \<open>
  Claim C7.  Each line record is to carry that line's branch group, and the empty
  list when the line has no branch details.  With an identifier that is an
  inherited member name the bucket of the line holds no record for it: line 10
  below has a branch detail, with the identifier \<open>toString\<close>, and its line record
  carries the empty list.
\<close>

theorem inherited_identifier_line_empty:
  "fst (loadDetailedCoverage loadDemangle
     (Some \<lparr>path = ''a.c'',
        lines = \<lparr>instrumented = 1, hit_count = 1, details = [\<lparr>line = 10, hit = 3\<rparr>]\<rparr>,
        branches = \<lparr>instrumented = 1, hit_count = 1,
                     details = [\<lparr>line = 10, hit = 1, branch = ''toString''\<rparr>]\<rparr>,
        functions = \<lparr>instrumented = 0, hit_count = 0, details = []\<rparr>\<rparr>) s) =
   Inr [StatementCoverage 3 (Position 9 0) []]"
  by (simp add: loadDetailedCoverage_def merge_branch_def ensure_branch_def add_executed_def
      get_property_def inherited_keys_def new_Position_def object_values_def)

section \<open>Summaries\<close>

text \<open>
  Claim C8.  For a section whose counters are consistent (in each group the hit
  counter is at most the instrumented counter, which is not negative), building
  the coverage summary succeeds and yields the section's own three pairs: the
  statement count from the lines, the branch count from the branches, the
  declaration count from the functions.  The detail records play no part: any
  other detail lists give the same summary.
\<close>

theorem summary_is_projection:
  assumes "counts_valid sec"
  shows "new_FileCoverage roots sec =
           Inr \<lparr>uri = (case resolve_path roots (path sec) of
                         Some joined \<Rightarrow> joined
                       | None \<Rightarrow> UriFile (path sec)),
                statementCoverage =
                  \<lparr>covered = hit_count (lines sec), total = instrumented (lines sec)\<rparr>,
                branchCoverage =
                  \<lparr>covered = hit_count (branches sec), total = instrumented (branches sec)\<rparr>,
                declarationCoverage =
                  \<lparr>covered = hit_count (functions sec), total = instrumented (functions sec)\<rparr>\<rparr> \<and>
         new_FileCoverage roots
           (sec\<lparr>lines := (lines sec)\<lparr>details := ls\<rparr>,
                branches := (branches sec)\<lparr>details := bs\<rparr>,
                functions := (functions sec)\<lparr>details := fns\<rparr>\<rparr>) =
           new_FileCoverage roots sec"
  using assms
  by (simp add: new_FileCoverage_def new_TestCoverageCount_def counts_valid_def
      split: option.splits)

theorem summary_is_projection_witness:
  "new_FileCoverage [''/ws/a'', ''/ws/b'']
     \<lparr>path = ''/ws/b/src/x.c'',
      lines = \<lparr>instrumented = 4, hit_count = 1, details = [\<lparr>line = 10, hit = 3\<rparr>]\<rparr>,
      branches = \<lparr>instrumented = 6, hit_count = 2, details = []\<rparr>,
      functions = \<lparr>instrumented = 3, hit_count = 3, details = []\<rparr>\<rparr> =
   Inr \<lparr>uri = UriJoinPath ''/ws/b'' ''src/x.c'',
        statementCoverage = \<lparr>covered = 1, total = 4\<rparr>,
        branchCoverage = \<lparr>covered = 2, total = 6\<rparr>,
        declarationCoverage = \<lparr>covered = 3, total = 3\<rparr>\<rparr>"
  using summary_is_projection [of
      "\<lparr>path = ''/ws/b/src/x.c'',
      lines = \<lparr>instrumented = 4, hit_count = 1, details = [\<lparr>line = 10, hit = 3\<rparr>]\<rparr>,
      branches = \<lparr>instrumented = 6, hit_count = 2, details = []\<rparr>,
      functions = \<lparr>instrumented = 3, hit_count = 3, details = []\<rparr>\<rparr>" "[''/ws/a'', ''/ws/b'']"
      "[]" "[]" "[]"]
  by (simp add: counts_valid_def startsWith_def substring_def)

section \<open>One load per session\<close>

text \<open>
  Claim C9.  In every state that a session of one coverage profile can reach,
  whatever the number of calls in flight and however they interleave, the demangler
  load has run at most once; a function held by the variable is the one that the
  first load resolved to; and every suspended call waits for the promise of that
  first load.
\<close>

theorem demangler_loaded_once:
  assumes "reachable loadDemangle x"
  shows "loads (profile x) \<le> 1 \<and>
         (\<forall>f. demangle (profile x) = DFunction f \<longrightarrow> loadDemangle 0 = Inr f) \<and>
         (\<forall>k fn fns ds. Suspended k fn fns ds \<in> set (calls x) \<longrightarrow> k = 0)"
proof -
  note inv = reachable_guarded [OF assms]
  have one: "loads (profile x) \<le> 1"
    using inv by (auto simp: guarded_def split: demangle_cache.splits)
  have "\<forall>k fn fns ds. Suspended k fn fns ds \<in> set (calls x) \<longrightarrow> k < loads (profile x)"
    using inv by (force simp: waits_below_def)
  then have "\<forall>k fn fns ds. Suspended k fn fns ds \<in> set (calls x) \<longrightarrow> k = 0"
    using one by (metis less_one order_less_le_trans)
  then show ?thesis
    using inv one by (auto simp: guarded_def split: demangle_cache.splits)
qed

theorem demangler_loaded_once_witness:
  "reachable (\<lambda>k. Inr (\<lambda>n. ''foo(int)''))
     \<lparr>profile = \<lparr>demangle = DFunction (\<lambda>n. ''foo(int)''), loads = 1,
                  demangled = [''_Z3fooi'', ''_Z3fooi''], prototype_executed = False\<rparr>,
      settled = {0},
      calls = [Returned [DeclarationCoverage ''foo(int)'' 1 (Position 4 0)],
               Returned [DeclarationCoverage ''foo(int)'' 1 (Position 4 0)]]\<rparr> \<and>
   loads (profile
     \<lparr>profile = \<lparr>demangle = DFunction (\<lambda>n. ''foo(int)''), loads = 1,
                  demangled = [''_Z3fooi'', ''_Z3fooi''], prototype_executed = False\<rparr>,
      settled = {0},
      calls = [Returned [DeclarationCoverage ''foo(int)'' 1 (Position 4 0)],
               Returned [DeclarationCoverage ''foo(int)'' 1 (Position 4 0)]]\<rparr>) \<le> 1"
proof -
  let ?ld = "\<lambda>k::nat. (Inr (\<lambda>n. ''foo(int)'') :: string + demangler)"
  let ?fn = "\<lparr>line = 5, hit = 1, name = ''_Z3fooi''\<rparr>"
  let ?found = "Some \<lparr>path = ''a.c'',
      lines = \<lparr>instrumented = 0, hit_count = 0, details = []\<rparr>,
      branches = \<lparr>instrumented = 0, hit_count = 0, details = []\<rparr>,
      functions = \<lparr>instrumented = 1, hit_count = 1, details = [?fn]\<rparr>\<rparr>"
  let ?waiting = "\<lparr>demangle = DPromise 0, loads = 1, demangled = [], prototype_executed = False\<rparr>"
  let ?done = "Returned [DeclarationCoverage ''foo(int)'' 1 (Position 4 0)]"
  let ?x1 = "\<lparr>profile = ?waiting, settled = {}, calls = [Suspended 0 ?fn [] []]\<rparr>"
  let ?x2 = "\<lparr>profile = ?waiting, settled = {},
             calls = [Suspended 0 ?fn [] [], Suspended 0 ?fn [] []]\<rparr>"
  let ?x3 = "\<lparr>profile = ?waiting, settled = {0},
             calls = [Suspended 0 ?fn [] [], Suspended 0 ?fn [] []]\<rparr>"
  let ?x4 = "\<lparr>profile = \<lparr>demangle = DFunction (\<lambda>n. ''foo(int)''), loads = 1,
                          demangled = [''_Z3fooi''], prototype_executed = False\<rparr>,
             settled = {0}, calls = [?done, Suspended 0 ?fn [] []]\<rparr>"
  let ?x5 = "\<lparr>profile = \<lparr>demangle = DFunction (\<lambda>n. ''foo(int)''), loads = 1,
                          demangled = [''_Z3fooi'', ''_Z3fooi''], prototype_executed = False\<rparr>,
             settled = {0}, calls = [?done, ?done]\<rparr>"
  have "session_step ?ld (initial_session False) ?x1"
    using session_step.call [of ?found "initial_session False" "Suspended 0 ?fn [] []" ?waiting ?ld]
    by (simp add: initial_session_def initial_profile_def start_call_def is_mangled_def
        demangle_enter_def)
  then have r1: "reachable ?ld ?x1"
    by (rule reachable.step [OF reachable.initial])
  have "session_step ?ld ?x1 ?x2"
    using session_step.call [of ?found ?x1 "Suspended 0 ?fn [] []" ?waiting ?ld]
    by (simp add: start_call_def is_mangled_def demangle_enter_def)
  then have r2: "reachable ?ld ?x2"
    by (rule reachable.step [OF r1])
  have "session_step ?ld ?x2 ?x3"
    using session_step.settle [of 0 ?x2 ?ld] by simp
  then have r3: "reachable ?ld ?x3"
    by (rule reachable.step [OF r2])
  have "session_step ?ld ?x3 ?x4"
    using session_step.resume [of 0 ?x3 0 ?fn "[]" "[]" ?ld ?done
        "\<lparr>demangle = DFunction (\<lambda>n. ''foo(int)''), loads = 1, demangled = [''_Z3fooi''],
          prototype_executed = False\<rparr>"]
    by (simp add: resume_call_def demangle_resume_def emit_demangled_def call_demangle_def
        push_declaration_def new_Position_def)
  then have r4: "reachable ?ld ?x4"
    by (rule reachable.step [OF r3])
  have "session_step ?ld ?x4 ?x5"
    using session_step.resume [of 1 ?x4 0 ?fn "[]" "[]" ?ld ?done
        "\<lparr>demangle = DFunction (\<lambda>n. ''foo(int)''), loads = 1,
          demangled = [''_Z3fooi'', ''_Z3fooi''], prototype_executed = False\<rparr>"]
    by (simp add: resume_call_def demangle_resume_def emit_demangled_def call_demangle_def
        push_declaration_def new_Position_def)
  then have r5: "reachable ?ld ?x5"
    by (rule reachable.step [OF r4])
  have once: "loads (profile ?x5) \<le> 1"
    by (rule conjunct1 [OF demangler_loaded_once [OF r5]])
  show ?thesis
    by (rule conjI [OF r5 once])
qed

section \<open>Branch details of lines without a line detail\<close>

text \<open>
  When the branch lines are positive, the branch loop throws no type error and no
  identifier is \<open>__proto__\<close>, the branch details whose line does not occur among
  the line details contribute nothing: removing all of them from the section leaves
  the result of detail expansion, and the profile after it, unchanged.
\<close>

lemma unlisted_branch_lines_dropped:
  assumes "list_all (\<lambda>b. 1 \<le> line b) (details (branches sec))"
      and "identifiers_clean (prototype_executed s) (details (branches sec))"
      and "''__proto__'' \<notin> branch ` set (details (branches sec))"
  shows "loadDetailedCoverage loadDemangle
           (Some (sec\<lparr>branches := (branches sec)
                    \<lparr>details := filter (\<lambda>b. line b \<in> line ` set (details (lines sec)))
                                  (details (branches sec))\<rparr>\<rparr>)) s =
         loadDetailedCoverage loadDemangle (Some sec) s"
proof -
  let ?bs = "details (branches sec)"
  let ?ls = "details (lines sec)"
  let ?keep = "\<lambda>b. line b \<in> line ` set ?ls"
  let ?p = "prototype_executed s"
  have flag: "polluted_after ?p ?bs = ?p" "polluted_after ?p (filter ?keep ?bs) = ?p"
    using assms(3) by (auto simp: polluted_after_def)
  have all: "branches_loop ?bs ?p Map.empty = (Inr (merged_buckets ?bs), ?p)"
    using assms(1,2) branches_loop_buckets [of ?bs ?p] by (simp add: list_all_iff flag)
  have "identifiers_clean ?p (filter ?keep ?bs)"
    using assms(2) by (auto simp: identifiers_clean_def)
  then have kept: "branches_loop (filter ?keep ?bs) ?p Map.empty =
      (Inr (merged_buckets (filter ?keep ?bs)), ?p)"
    using assms(1) branches_loop_buckets [of "filter ?keep ?bs" ?p] by (simp add: list_all_iff flag)
  have same: "\<forall>l\<in>set ?ls. merged_buckets (filter ?keep ?bs) (line l) = merged_buckets ?bs (line l)"
  proof
    fix l assume l: "l \<in> set ?ls"
    have "\<forall>b\<in>set ?bs. line b = line l \<longrightarrow> ?keep b"
      using l by auto
    then have "merged_bucket (line l) (filter ?keep ?bs) = merged_bucket (line l) ?bs"
      by (rule merged_bucket_filter)
    moreover have "line l \<in> line ` set (filter ?keep ?bs) \<longleftrightarrow> line l \<in> line ` set ?bs"
      using l by (force simp: image_iff)
    ultimately show "merged_buckets (filter ?keep ?bs) (line l) = merged_buckets ?bs (line l)"
      by (simp add: merged_buckets_def)
  qed
  have "\<And>ds. lines_loop ?ls (merged_buckets (filter ?keep ?bs)) ds =
             lines_loop ?ls (merged_buckets ?bs) ds"
    using same by (rule lines_loop_cong)
  then show ?thesis
    by (simp add: loadDetailedCoverage_def all kept split: sum.splits)
qed

text \<open>
  Claim C10.  A branch detail whose line does not occur among the line details is
  to contribute nothing to the result.  With the identifier \<open>__proto__\<close> it does:
  its hit count is written to the object prototype, which then answers for the key
  \<open>executed\<close> in every bucket, and the branch detail of the listed line 10 with
  that identifier throws a type error.  Without the detail of line 99 the same
  section expands to the line record with its branch record.
\<close>

theorem unlisted_proto_detail_changes_result:
  "fst (loadDetailedCoverage loadDemangle
     (Some \<lparr>path = ''a.c'',
        lines = \<lparr>instrumented = 1, hit_count = 1, details = [\<lparr>line = 10, hit = 3\<rparr>]\<rparr>,
        branches = \<lparr>instrumented = 2, hit_count = 2,
                     details = [\<lparr>line = 99, hit = 1, branch = ''__proto__''\<rparr>,
                                \<lparr>line = 10, hit = 4, branch = ''executed''\<rparr>]\<rparr>,
        functions = \<lparr>instrumented = 0, hit_count = 0, details = []\<rparr>\<rparr>)
     (initial_profile False)) = Inl TypeError \<and>
   fst (loadDetailedCoverage loadDemangle
     (Some \<lparr>path = ''a.c'',
        lines = \<lparr>instrumented = 1, hit_count = 1, details = [\<lparr>line = 10, hit = 3\<rparr>]\<rparr>,
        branches = \<lparr>instrumented = 2, hit_count = 2,
                     details = [\<lparr>line = 10, hit = 4, branch = ''executed''\<rparr>]\<rparr>,
        functions = \<lparr>instrumented = 0, hit_count = 0, details = []\<rparr>\<rparr>)
     (initial_profile False)) =
   Inr [StatementCoverage 3 (Position 9 0) [BranchCoverage (Finite 4) (Position 9 0) ''executed'']]"
  by (simp add: loadDetailedCoverage_def merge_branch_def ensure_branch_def add_executed_def
      get_property_def inherited_keys_def new_Position_def object_values_def
      plus_number_def round_number_def initial_profile_def
      is_array_index_def is_digit_def numeral_value_def digit_value_def)

end
